theory Spec2Isabelle
  imports Main "HOL-Library.Sublist" "HOL-Library.AList" "HOL-Library.Word"
begin

section \<open>Strings as the server handles them\<close>

text \<open>
  The server (\<^verbatim>\<open>server.js\<close>) keeps every event in text files and reads them back
  with the string methods of JavaScript. A JavaScript string is a sequence of code
  units; the model writes it as a HOL \<^typ>\<open>string\<close>, one \<^typ>\<open>char\<close> for the code unit of
  the same number, and so covers the strings whose code units are below 256. The
  content of a file is the string that \<^verbatim>\<open>fs.readFile(path, 'utf8')\<close> returns for it.

  Modelled are \<open>Logger.log\<close> and the handlers of \<^verbatim>\<open>POST /api/log\<close>, \<^verbatim>\<open>GET /api/logs\<close>,
  \<^verbatim>\<open>DELETE /api/logs\<close> and \<^verbatim>\<open>GET /logs\<close> (the entries it reads and the block each is
  shown in, not the markup). The three shorthand routes, the health probe and the
  start of the server are not.
\<close>

definition is_space :: "char \<Rightarrow> bool" where
  \<comment> \<open>what \<^verbatim>\<open>trim()\<close> removes and \<^verbatim>\<open>\s\<close> matches: tab, LF, VT, FF, CR, space, no-break space\<close>
  "is_space c = (of_char c \<in> {9, 10, 11, 12, 13, 32, 160 :: nat})"

definition is_line_terminator :: "char \<Rightarrow> bool" where
  \<comment> \<open>what \<^verbatim>\<open>.\<close> of a regular expression does not match: LF and CR\<close>
  "is_line_terminator c = (of_char c \<in> {10, 13 :: nat})"

definition trim :: "string \<Rightarrow> string" where
  "trim s = rev (dropWhile is_space (rev (dropWhile is_space s)))"

definition blank :: "string \<Rightarrow> bool" where
  \<comment> \<open>the filters \<^verbatim>\<open>line => line.trim()\<close> keep a piece when its trimmed text is not empty\<close>
  "blank s = (trim s = [])"

fun split_from :: "string \<Rightarrow> string \<Rightarrow> string \<Rightarrow> string list" where
  "split_from sep acc [] = [rev acc]"
| "split_from sep acc (c # cs) =
     (if sep \<noteq> [] \<and> prefix sep (c # cs)
      then rev acc # split_from sep [] (drop (length sep) (c # cs))
      else split_from sep (c # acc) cs)"

definition js_split :: "string \<Rightarrow> string \<Rightarrow> string list" where
  \<comment> \<open>\<^verbatim>\<open>s.split(sep)\<close> for a separator that is not empty: the pieces between the
      occurrences of \<open>sep\<close>, found from the left and not overlapping\<close>
  "js_split s sep = split_from sep [] s"

fun occurs :: "string \<Rightarrow> string \<Rightarrow> bool" where
  "occurs sep [] = (sep = [])"
| "occurs sep (c # cs) = (prefix sep (c # cs) \<or> occurs sep cs)"

fun js_join :: "string \<Rightarrow> string list \<Rightarrow> string" where
  "js_join sep [] = []"
| "js_join sep [x] = x"
| "js_join sep (x # y # ys) = x @ sep @ js_join sep (y # ys)"

datatype number = NaN | Num int

definition slice_last :: "number \<Rightarrow> 'a list \<Rightarrow> 'a list" where
  \<comment> \<open>\<^verbatim>\<open>xs.slice(-limit)\<close>, with \<open>Num n\<close> the integer part of the number \<open>limit\<close> converts
      to and \<open>NaN\<close> when it converts to no number: a start of \<open>-n\<close> counts from the
      end, a start of 0 (also from NaN) keeps everything, a positive start drops\<close>
  "slice_last limit xs =
     (case limit of
        NaN \<Rightarrow> xs
      | Num n \<Rightarrow> if 0 < n then drop (length xs - nat n) xs else drop (nat (- n)) xs)"

definition to_upper_char :: "char \<Rightarrow> char" where
  "to_upper_char c =
     (case map_of (zip ''abcdefghijklmnopqrstuvwxyz'' ''ABCDEFGHIJKLMNOPQRSTUVWXYZ'') c of
        Some u \<Rightarrow> u
      | None \<Rightarrow> c)"

definition toUpperCase :: "string \<Rightarrow> string" where
  \<comment> \<open>on the letters a to z, which is all the three event types hold\<close>
  "toUpperCase s = map to_upper_char s"

definition digit_char :: "nat \<Rightarrow> char" where
  "digit_char d = ''0123456789abcdef'' ! d"

fun show_nat :: "nat \<Rightarrow> string" where
  "show_nat n =
     (if n < 10 then [digit_char n] else show_nat (n div 10) @ [digit_char (n mod 10)])"

declare show_nat.simps [simp del]

definition show_int :: "int \<Rightarrow> string" where
  \<comment> \<open>the digits of an integer, as JavaScript prints the numbers of the model\<close>
  "show_int i = (if i < 0 then CHR ''-'' # show_nat (nat (- i)) else show_nat (nat i))"

definition delimiter :: string where
  \<comment> \<open>\<^verbatim>\<open>'='.repeat(50)\<close>\<close>
  "delimiter = replicate 50 CHR ''=''"

definition newline :: string where
  "newline = [CHR 0x0A]"


section \<open>Values and their JSON text\<close>

text \<open>
  The values of a request body, and what the handlers build from them. \<open>JUndefined\<close>
  is JavaScript's \<^verbatim>\<open>undefined\<close>: a header that is absent, a body field that is absent.
  An object is the list of its properties in property order, with distinct keys.
  Numbers are the integers from \<^verbatim>\<open>-2^53\<close> to \<^verbatim>\<open>2^53 - 1\<close>, which a JavaScript number holds
  exactly and prints in digits: a word of 54 bits, read as a signed integer. A
  number with a fraction or an exponent, or beyond this range, is outside the model.
\<close>

datatype json =
    JUndefined
  | JNull
  | JBool bool
  | JNum "54 word"
  | JStr string
  | JArr "json list"
  | JObj "(string \<times> json) list"

definition js_truthy :: "json \<Rightarrow> bool" where
  "js_truthy v =
     (case v of
        JUndefined \<Rightarrow> False
      | JNull \<Rightarrow> False
      | JBool b \<Rightarrow> b
      | JNum n \<Rightarrow> n \<noteq> 0
      | JStr s \<Rightarrow> s \<noteq> []
      | JArr xs \<Rightarrow> True
      | JObj kvs \<Rightarrow> True)"

datatype js_error = TypeError

fun js_to_string :: "json \<Rightarrow> js_error + string"
  and to_strings :: "json list \<Rightarrow> js_error + string list" where
  \<comment> \<open>the conversion a template literal \<^verbatim>\<open>`${v}`\<close> applies. An object is converted by
      its \<^verbatim>\<open>toString\<close>, which is the one of \<^verbatim>\<open>Object.prototype\<close> unless the object has a
      property of that name; in a value that came from JSON such a property is no
      function, \<^verbatim>\<open>valueOf\<close> returns the object, and the conversion throws a
      \<^verbatim>\<open>TypeError\<close>. An array joins the conversions of its elements with commas,
      nothing standing for \<^verbatim>\<open>undefined\<close> and \<^verbatim>\<open>null\<close>, and throws when one of them does.\<close>
  "js_to_string JUndefined = Inr ''undefined''"
| "js_to_string JNull = Inr ''null''"
| "js_to_string (JBool b) = Inr (if b then ''true'' else ''false'')"
| "js_to_string (JNum n) = Inr (show_int (sint n))"
| "js_to_string (JStr s) = Inr s"
| "js_to_string (JArr xs) =
     (case to_strings xs of Inl e \<Rightarrow> Inl e | Inr ss \<Rightarrow> Inr (js_join '','' ss))"
| "js_to_string (JObj kvs) =
     (if map_of kvs ''toString'' = None then Inr ''[object Object]'' else Inl TypeError)"
| "to_strings [] = Inr []"
| "to_strings (x # xs) =
     (case (if x = JUndefined \<or> x = JNull then Inr [] else js_to_string x) of
        Inl e \<Rightarrow> Inl e
      | Inr s \<Rightarrow> (case to_strings xs of Inl e \<Rightarrow> Inl e | Inr ss \<Rightarrow> Inr (s # ss)))"

definition throws :: "json \<Rightarrow> bool" where
  "throws v = (case js_to_string v of Inl e \<Rightarrow> True | Inr s \<Rightarrow> False)"

definition quote_char :: "char \<Rightarrow> string" where
  "quote_char c =
     (if c = CHR 0x22 then [CHR 0x5C, CHR 0x22]
      else if c = CHR 0x5C then [CHR 0x5C, CHR 0x5C]
      else if c = CHR 0x08 then [CHR 0x5C, CHR ''b'']
      else if c = CHR 0x09 then [CHR 0x5C, CHR ''t'']
      else if c = CHR 0x0A then [CHR 0x5C, CHR ''n'']
      else if c = CHR 0x0C then [CHR 0x5C, CHR ''f'']
      else if c = CHR 0x0D then [CHR 0x5C, CHR ''r'']
      else if (of_char c :: nat) < 32
        then [CHR 0x5C, CHR ''u'', CHR ''0'', CHR ''0'',
              digit_char (of_char c div 16), digit_char (of_char c mod 16)]
      else [c])"

definition quote :: "string \<Rightarrow> string" where
  \<comment> \<open>a string as JSON text: between double quotes, with the double quote, the
      backslash and the control characters escaped\<close>
  "quote s = CHR 0x22 # concat (map quote_char s) @ [CHR 0x22]"

fun ser :: "string \<Rightarrow> json \<Rightarrow> string option"
  and ser_props :: "string \<Rightarrow> (string \<times> json) list \<Rightarrow> string list"
  and ser_elems :: "string \<Rightarrow> json list \<Rightarrow> string list" where
  "ser ind JUndefined = None"
| "ser ind JNull = Some ''null''"
| "ser ind (JBool b) = Some (if b then ''true'' else ''false'')"
| "ser ind (JNum n) = Some (show_int (sint n))"
| "ser ind (JStr s) = Some (quote s)"
| "ser ind (JArr xs) =
     Some (if xs = [] then ''[]''
           else ''['' @ newline @ (ind @ ''  '')
                @ js_join ('','' @ newline @ (ind @ ''  '')) (ser_elems (ind @ ''  '') xs)
                @ newline @ ind @ '']'')"
| "ser ind (JObj kvs) =
     Some (if ser_props (ind @ ''  '') kvs = [] then ''{}''
           else ''{'' @ newline @ (ind @ ''  '')
                @ js_join ('','' @ newline @ (ind @ ''  '')) (ser_props (ind @ ''  '') kvs)
                @ newline @ ind @ ''}'')"
| "ser_props ind [] = []"
| "ser_props ind ((k, v) # kvs) =
     (case ser ind v of
        None \<Rightarrow> ser_props ind kvs
      | Some s \<Rightarrow> (quote k @ '': '' @ s) # ser_props ind kvs)"
| "ser_elems ind [] = []"
| "ser_elems ind (x # xs) =
     (case ser ind x of None \<Rightarrow> ''null'' | Some s \<Rightarrow> s) # ser_elems ind xs"

definition JSON_stringify :: "json \<Rightarrow> string" where
  \<comment> \<open>\<^verbatim>\<open>`${JSON.stringify(v, null, 2)}`\<close>: indented by two spaces; a property whose value
      is \<^verbatim>\<open>undefined\<close> is left out, an array element that is \<^verbatim>\<open>undefined\<close> is \<^verbatim>\<open>null\<close>\<close>
  "JSON_stringify v = (case ser [] v of Some s \<Rightarrow> s | None \<Rightarrow> ''undefined'')"


section \<open>The log directory\<close>

text \<open>
  The files of the directory \<^verbatim>\<open>logs\<close>, by name. A name has no entry while its file does
  not exist; \<open>File\<close> is an ordinary file, \<open>ReadOnly\<close> one the server may read and not
  write, \<open>Dir\<close> a directory standing where the file would. Writing to a name with no
  entry creates the file, as \<^verbatim>\<open>fs.appendFile\<close> and \<^verbatim>\<open>fs.writeFile\<close> do.
\<close>

datatype node = File string | ReadOnly string | Dir

datatype io_error = ENOENT | EACCES | EISDIR

type_synonym logs_dir = "string \<Rightarrow> node option"

definition readFile :: "logs_dir \<Rightarrow> string \<Rightarrow> io_error + string" where
  "readFile fs name =
     (case fs name of
        None \<Rightarrow> Inl ENOENT
      | Some (File s) \<Rightarrow> Inr s
      | Some (ReadOnly s) \<Rightarrow> Inr s
      | Some Dir \<Rightarrow> Inl EISDIR)"

definition appendFile :: "logs_dir \<Rightarrow> string \<Rightarrow> string \<Rightarrow> io_error + logs_dir" where
  "appendFile fs name text =
     (case fs name of
        None \<Rightarrow> Inr (fs(name \<mapsto> File text))
      | Some (File s) \<Rightarrow> Inr (fs(name \<mapsto> File (s @ text)))
      | Some (ReadOnly s) \<Rightarrow> Inl EACCES
      | Some Dir \<Rightarrow> Inl EISDIR)"

definition writeFile :: "logs_dir \<Rightarrow> string \<Rightarrow> string \<Rightarrow> io_error + logs_dir" where
  "writeFile fs name text =
     (case fs name of
        None \<Rightarrow> Inr (fs(name \<mapsto> File text))
      | Some (File s) \<Rightarrow> Inr (fs(name \<mapsto> File text))
      | Some (ReadOnly s) \<Rightarrow> Inl EACCES
      | Some Dir \<Rightarrow> Inl EISDIR)"

definition logFile :: string where
  "logFile = ''app_logs.txt''"

definition typeFile :: "string \<Rightarrow> string" where
  \<comment> \<open>\<^verbatim>\<open>`${type}_logs.txt`\<close>\<close>
  "typeFile type = type @ ''_logs.txt''"

definition allowedTypes :: "string list" where
  "allowedTypes = [''api-failed'', ''log'', ''error'']"


section \<open>Logger.log\<close>

definition logEntry :: "string \<Rightarrow> string \<Rightarrow> json \<Rightarrow> json \<Rightarrow> json \<Rightarrow> json" where
  "logEntry timestamp type title description metadata =
     JObj [(''timestamp'', JStr timestamp), (''type'', JStr type), (''title'', title),
           (''description'', description), (''metadata'', metadata)]"

definition logLine :: "string \<Rightarrow> string \<Rightarrow> json \<Rightarrow> json \<Rightarrow> js_error + string" where
  \<comment> \<open>the template of \<^verbatim>\<open>logLine\<close>, without the line break at its end: \<open>Inl\<close> when the
      conversion of the title, or of a description that is not falsy, throws\<close>
  "logLine timestamp type title description =
     (case js_to_string title of
        Inl e \<Rightarrow> Inl e
      | Inr t \<Rightarrow>
          if js_truthy description
          then (case js_to_string description of
                  Inl e \<Rightarrow> Inl e
                | Inr d \<Rightarrow>
                    Inr (''['' @ timestamp @ ''] ['' @ toUpperCase type @ ''] '' @ t @ '' - '' @ d))
          else Inr (''['' @ timestamp @ ''] ['' @ toUpperCase type @ ''] '' @ t))"

definition detailedLog :: "json \<Rightarrow> string" where
  "detailedLog entry = JSON_stringify entry @ newline @ delimiter @ newline"

definition or_default :: "json \<Rightarrow> json \<Rightarrow> json" where
  \<comment> \<open>a default parameter \<^verbatim>\<open>v = d\<close>: the default stands in for \<^verbatim>\<open>undefined\<close> only\<close>
  "or_default v d = (if v = JUndefined then d else v)"

definition Logger_log ::
  "logs_dir \<Rightarrow> string \<Rightarrow> string \<Rightarrow> json \<Rightarrow> json \<Rightarrow> json \<Rightarrow> js_error + bool \<times> logs_dir" where
  \<comment> \<open>\<open>timestamp\<close> is what \<^verbatim>\<open>new Date().toISOString()\<close> returns at the call. The two
      texts are built before the \<^verbatim>\<open>try\<close>: when the template of the line throws, the
      call is rejected (\<open>Inl\<close>) and nothing is written. Inside the \<^verbatim>\<open>try\<close> a failed
      append makes the call return false, and the first append stays when the
      second fails.\<close>
  "Logger_log fs timestamp type title description0 metadata0 =
     (let description = or_default description0 (JStr []);
          metadata = or_default metadata0 (JObj [])
      in case logLine timestamp type title description of
           Inl e \<Rightarrow> Inl e
         | Inr line \<Rightarrow>
             (case appendFile fs logFile (line @ newline) of
                Inl e \<Rightarrow> Inr (False, fs)
              | Inr fs1 \<Rightarrow>
                  (case appendFile fs1 (typeFile type)
                          (detailedLog (logEntry timestamp type title description metadata)) of
                     Inl e \<Rightarrow> Inr (False, fs1)
                   | Inr fs2 \<Rightarrow> Inr (True, fs2))))"


section \<open>POST /api/log\<close>

record request =
  body :: "(string \<times> json) list"
  user_agent :: json
  ip :: json

datatype post_response =
    Created string
  | Bad_request string
  | Server_error string

definition field :: "(string \<times> json) list \<Rightarrow> string \<Rightarrow> json" where
  "field obj k = (case map_of obj k of None \<Rightarrow> JUndefined | Some v \<Rightarrow> v)"

definition field_or :: "(string \<times> json) list \<Rightarrow> string \<Rightarrow> json \<Rightarrow> json" where
  \<comment> \<open>a destructuring default: it stands in for \<^verbatim>\<open>undefined\<close> only\<close>
  "field_or obj k d = (if field obj k = JUndefined then d else field obj k)"

definition spread :: "json \<Rightarrow> (string \<times> json) list" where
  \<comment> \<open>the properties \<^verbatim>\<open>{...v}\<close> copies: those of an object, the elements of an array and
      the characters of a string under their indices, none of any other value\<close>
  "spread v =
     (case v of
        JObj kvs \<Rightarrow> kvs
      | JArr xs \<Rightarrow> zip (map show_nat [0..<length xs]) xs
      | JStr s \<Rightarrow> zip (map show_nat [0..<length s]) (map (\<lambda>c. JStr [c]) s)
      | _ \<Rightarrow> [])"

definition merged_metadata :: "json \<Rightarrow> json \<Rightarrow> json \<Rightarrow> (string \<times> json) list" where
  \<comment> \<open>\<^verbatim>\<open>{...metadata, userAgent: ..., ip: ..., source: 'react-native-app'}\<close>: a key the
      caller gave keeps its place and takes the server's value, a new key goes last\<close>
  "merged_metadata metadata ua addr =
     AList.update ''source'' (JStr ''react-native-app'')
       (AList.update ''ip'' addr
         (AList.update ''userAgent'' ua (spread metadata)))"

definition allowed_type :: "json \<Rightarrow> string option" where
  \<comment> \<open>\<^verbatim>\<open>allowedTypes.includes(type)\<close>: only a string that is one of the three\<close>
  "allowed_type v =
     (case v of
        JStr t \<Rightarrow> if t \<in> set allowedTypes then Some t else None
      | _ \<Rightarrow> None)"

definition post_log ::
  "logs_dir \<Rightarrow> string \<Rightarrow> string \<Rightarrow> request \<Rightarrow> post_response \<times> logs_dir" where
  \<comment> \<open>\<open>now\<close> is the clock as \<open>Logger.log\<close> reads it, \<open>later\<close> as the response does.
      The body is a JSON object. When \<open>Logger.log\<close> is rejected, the \<^verbatim>\<open>await\<close> throws and
      the outer \<^verbatim>\<open>catch\<close> answers 500, \<^verbatim>\<open>Internal server error\<close>.\<close>
  "post_log fs now later req =
     (let type = field (body req) ''type'';
          title = field (body req) ''title'';
          description = field_or (body req) ''description'' (JStr []);
          metadata = field_or (body req) ''metadata'' (JObj [])
      in if \<not> js_truthy type \<or> \<not> js_truthy title
         then (Bad_request ''Type and title are required fields'', fs)
         else
           (case allowed_type type of
              None \<Rightarrow>
                (Bad_request (''Invalid event type. Allowed types: ''
                              @ js_join '', '' allowedTypes), fs)
            | Some t \<Rightarrow>
                (case Logger_log fs now t title description
                        (JObj (merged_metadata metadata (user_agent req) (ip req))) of
                   Inr (True, fs') \<Rightarrow> (Created later, fs')
                 | Inr (False, fs') \<Rightarrow> (Server_error ''Failed to write log entry'', fs')
                 | Inl error \<Rightarrow> (Server_error ''Internal server error'', fs))))"


section \<open>GET /api/logs\<close>

record logs_response =
  success :: bool
  logs :: "string list"
  count :: nat
  file_name :: "string option"
  message :: "string option"

definition selected_file :: "string option \<Rightarrow> string" where
  \<comment> \<open>\<^verbatim>\<open>type && [...].includes(type)\<close> chooses the file of the type, everything else
      the main file\<close>
  "selected_file type =
     (case type of
        None \<Rightarrow> logFile
      | Some t \<Rightarrow> if t \<noteq> [] \<and> t \<in> set allowedTypes then typeFile t else logFile)"

definition get_api_logs :: "logs_dir \<Rightarrow> string option \<Rightarrow> number option \<Rightarrow> logs_response" where
  \<comment> \<open>\<open>limit\<close> is \<open>None\<close> when the query has none (then it is 100). Only the read can
      fail, and the inner \<^verbatim>\<open>catch\<close> takes that: the outer one (500) is never entered.\<close>
  "get_api_logs fs type limit =
     (case readFile fs (selected_file type) of
        Inr data \<Rightarrow>
          (let lines = filter (\<lambda>line. \<not> blank line) (js_split data newline);
               recentLines = slice_last (case limit of None \<Rightarrow> Num 100 | Some l \<Rightarrow> l) lines
           in \<lparr>success = True, logs = recentLines, count = length recentLines,
               file_name = Some (selected_file type), message = None\<rparr>)
      | Inl fileError \<Rightarrow>
          \<lparr>success = True, logs = [], count = 0, file_name = None,
           message = Some ''No logs found''\<rparr>)"


section \<open>DELETE /api/logs\<close>

datatype delete_response =
    Cleared string
  | Clear_failed string

fun clear_files :: "logs_dir \<Rightarrow> string list \<Rightarrow> logs_dir" where
  \<comment> \<open>the loop over the four files: a write that fails is passed over\<close>
  "clear_files fs [] = fs"
| "clear_files fs (f # files) =
     (case writeFile fs f [] of
        Inl error \<Rightarrow> clear_files fs files
      | Inr fs' \<Rightarrow> clear_files fs' files)"

definition all_files :: "string list" where
  "all_files = [''app_logs.txt'', ''api-failed_logs.txt'', ''log_logs.txt'', ''error_logs.txt'']"

definition delete_logs :: "logs_dir \<Rightarrow> string option \<Rightarrow> delete_response \<times> logs_dir" where
  "delete_logs fs type =
     (case type of
        None \<Rightarrow> (Cleared ''All logs cleared'', clear_files fs all_files)
      | Some t \<Rightarrow>
          if t \<noteq> [] \<and> t \<in> set allowedTypes
          then (case writeFile fs (typeFile t) [] of
                  Inr fs' \<Rightarrow> (Cleared (t @ '' logs cleared''), fs')
                | Inl error \<Rightarrow> (Clear_failed ''Failed to clear logs'', fs))
          else (Cleared ''All logs cleared'', clear_files fs all_files))"


section \<open>GET /logs: the entries of the dashboard\<close>

text \<open>
  \<^verbatim>\<open>JSON.parse\<close> is a function of the language, not of the server: the handler takes
  it as the parameter \<open>parse\<close>, with \<open>None\<close> for the \<^verbatim>\<open>SyntaxError\<close> it throws. An
  entry of \<^verbatim>\<open>logs\<close> is a value: a string, or what \<open>parse\<close> returned.
\<close>

definition extract_json :: "string \<Rightarrow> string option" where
  \<comment> \<open>\<^verbatim>\<open>entry.match(/\{[\s\S]*\}/)\<close>: from the first opening brace to the last closing
      brace after it\<close>
  "extract_json entry =
     (case dropWhile (\<lambda>c. c \<noteq> CHR ''{'') entry of
        [] \<Rightarrow> None
      | c # rest \<Rightarrow>
          (case dropWhile (\<lambda>c. c \<noteq> CHR ''}'') (rev rest) of
             [] \<Rightarrow> None
           | d # inner \<Rightarrow> Some (c # rev (d # inner))))"

definition parse_entry :: "(string \<Rightarrow> json option) \<Rightarrow> string \<Rightarrow> json" where
  "parse_entry parse entry =
     (case extract_json entry of
        None \<Rightarrow> JStr (trim entry)
      | Some text \<Rightarrow>
          (case parse text of
             Some v \<Rightarrow> v
           | None \<Rightarrow> JStr (trim entry)))"

definition view_logs ::
  "(string \<Rightarrow> json option) \<Rightarrow> logs_dir \<Rightarrow> string option \<Rightarrow> number option \<Rightarrow> json list" where
  \<comment> \<open>the array \<^verbatim>\<open>logs\<close> of the handler; \<open>limit\<close> is \<open>None\<close> when the query has none
      (then it is 50)\<close>
  "view_logs parse fs type limit =
     (let selectedType = (case type of None \<Rightarrow> ''all'' | Some t \<Rightarrow> if t = [] then ''all'' else t);
          n = (case limit of None \<Rightarrow> Num 50 | Some l \<Rightarrow> l)
      in if selectedType = ''all''
         then (case readFile fs logFile of
                 Inr data \<Rightarrow>
                   map JStr (rev (slice_last n
                     (filter (\<lambda>line. \<not> blank line) (js_split data newline))))
               | Inl error \<Rightarrow> [JStr ''No logs found''])
         else (case readFile fs (typeFile selectedType) of
                 Inr data \<Rightarrow>
                   map (parse_entry parse) (rev (slice_last n
                     (filter (\<lambda>entry. \<not> blank entry) (js_split data delimiter))))
               | Inl error \<Rightarrow> [JStr ''No logs found for this type'']))"


section \<open>GET /logs: how an entry is shown\<close>

text \<open>
  A string entry is matched against the regular expression the handler writes as
  \<^verbatim>\<open>/\\[(.+?)\\] \\[(.+?)\\] (.+?)(?:\\s-\\s(.+))?$/\<close>.
  The literal stands in a substitution of the page's template, where it is code and
  not text of the template, so nothing removes a backslash from it: \<^verbatim>\<open>\\\<close> is an
  escaped backslash and matches a backslash, and \<^verbatim>\<open>[(.+?)\\]\<close> is a character class,
  one of the characters \<^verbatim>\<open>( . + ? )\<close> and the backslash. The expression therefore reads:
  a backslash, a character of the class, a space, a backslash, a character of the
  class, a space, a lazy group of one or more characters, then, optionally, a
  backslash, \<^verbatim>\<open>s-\<close>, a backslash, \<^verbatim>\<open>s\<close> and a greedy group, up to the end of the
  string. It has two groups. The match may start anywhere in the line, at the
  leftmost place that works.
\<close>

definition class_char :: "char \<Rightarrow> bool" where
  \<comment> \<open>the class \<^verbatim>\<open>[(.+?)\\]\<close>\<close>
  "class_char c = (c \<in> set ''(.+?)'' \<or> c = CHR 0x5C)"

definition tail_part :: "string \<Rightarrow> string option option" where
  \<comment> \<open>\<^verbatim>\<open>(?:\\s-\\s(.+))?$\<close> on the rest of the line: \<open>Some (Some g)\<close> when the optional
      part matches with the group \<open>g\<close>, \<open>Some None\<close> at the end of the line, \<open>None\<close> when
      there is no match here\<close>
  "tail_part rest =
     (if prefix [CHR 0x5C, CHR ''s'', CHR ''-'', CHR 0x5C, CHR ''s''] rest
         \<and> drop 5 rest \<noteq> [] \<and> \<not> list_ex is_line_terminator (drop 5 rest)
      then Some (Some (drop 5 rest))
      else if rest = [] then Some None
      else None)"

fun lazy_plus :: "(string \<Rightarrow> string \<Rightarrow> 'a option) \<Rightarrow> string \<Rightarrow> string \<Rightarrow> 'a option" where
  \<comment> \<open>a group \<^verbatim>\<open>(.+?)\<close>: the shortest text, of characters that end no line, after which
      the rest of the expression matches; \<open>k group rest\<close> is the match of that rest\<close>
  "lazy_plus k acc [] = None"
| "lazy_plus k acc (c # cs) =
     (if is_line_terminator c then None
      else (case k (rev (c # acc)) cs of
              Some r \<Rightarrow> Some r
            | None \<Rightarrow> lazy_plus k (c # acc) cs))"

definition match_here :: "string \<Rightarrow> (string \<times> string option) option" where
  \<comment> \<open>a match that starts at the head of \<open>s\<close>: its first group, and its second group
      when the optional part took part\<close>
  "match_here s =
     (case s of
        b1 # c1 # s1 # b2 # c2 # s2 # rest \<Rightarrow>
          if b1 = CHR 0x5C \<and> class_char c1 \<and> s1 = CHR '' ''
             \<and> b2 = CHR 0x5C \<and> class_char c2 \<and> s2 = CHR '' ''
          then lazy_plus (\<lambda>g rest'. map_option (\<lambda>t. (g, t)) (tail_part rest')) [] rest
          else None
      | _ \<Rightarrow> None)"

fun match_line :: "string \<Rightarrow> (string \<times> string option) option" where
  \<comment> \<open>\<^verbatim>\<open>log.match(...)\<close>: the leftmost match\<close>
  "match_line [] = None"
| "match_line (c # cs) =
     (case match_here (c # cs) of
        Some m \<Rightarrow> Some m
      | None \<Rightarrow> match_line cs)"

datatype rendered =
    Compact_entry string string "string option" "string option"
  | Plain_entry string
  | Detailed_entry json

definition render_log :: "json \<Rightarrow> js_error + rendered" where
  \<comment> \<open>the callback of \<^verbatim>\<open>logs.map\<close>. Of a match, \<^verbatim>\<open>[, timestamp, type, title, description]\<close>
      takes the first group as the timestamp and the second as the type; there is no
      third and fourth group, so the title and the description are \<^verbatim>\<open>undefined\<close>
      (\<open>None\<close>), and \<^verbatim>\<open>type.toLowerCase()\<close> throws when the second group took no part.
      \<open>Compact_entry\<close> is the block with the timestamp, the type, the title and the
      description; \<open>Plain_entry\<close> is the block with the raw line as its title, and
      nothing else. For a value that is no string, the template converts
      \<^verbatim>\<open>log.type\<close>, \<^verbatim>\<open>log.timestamp\<close> (in \<^verbatim>\<open>new Date\<close>), \<^verbatim>\<open>log.title\<close> and a description that
      is not falsy, and \<^verbatim>\<open>Object.keys(log.metadata)\<close> throws on a value without
      metadata.\<close>
  "render_log log =
     (case log of
        JStr s \<Rightarrow>
          (case match_line s of
             Some (timestamp, type) \<Rightarrow>
               (case type of
                  None \<Rightarrow> Inl TypeError
                | Some ty \<Rightarrow> Inr (Compact_entry timestamp ty None None))
           | None \<Rightarrow> Inr (Plain_entry s))
      | JObj kvs \<Rightarrow>
          if throws (field kvs ''type'') \<or> throws (field kvs ''timestamp'')
             \<or> throws (field kvs ''title'')
             \<or> (js_truthy (field kvs ''description'') \<and> throws (field kvs ''description''))
             \<or> field kvs ''metadata'' = JUndefined \<or> field kvs ''metadata'' = JNull
          then Inl TypeError else Inr (Detailed_entry log)
      | _ \<Rightarrow> Inl TypeError)"

fun render_all :: "json list \<Rightarrow> js_error + rendered list" where
  "render_all [] = Inr []"
| "render_all (l # ls) =
     (case render_log l of
        Inl e \<Rightarrow> Inl e
      | Inr r \<Rightarrow> (case render_all ls of Inl e \<Rightarrow> Inl e | Inr rs \<Rightarrow> Inr (r # rs)))"

datatype page = Empty_state | Entries "rendered list" | Error_page

definition get_logs ::
  "(string \<Rightarrow> json option) \<Rightarrow> logs_dir \<Rightarrow> string option \<Rightarrow> number option \<Rightarrow> page" where
  "get_logs parse fs type limit =
     (let logs = view_logs parse fs type limit
      in if logs = [] \<or> logs = [JStr ''No logs found''] then Empty_state
         else (case render_all logs of Inl e \<Rightarrow> Error_page | Inr rs \<Rightarrow> Entries rs))"


section \<open>A reader of JSON text\<close>

text \<open>
  A reader for the JSON texts of this model (the integers of the model for numbers,
  escapes of code units below 256), to put in the place of \<open>parse\<close> where an entry is
  computed from a concrete directory. \<open>None\<close> is the \<^verbatim>\<open>SyntaxError\<close>, and also the
  answer to a number outside the model. The first argument bounds the number of
  values read, and the length of the text is enough of it.
\<close>

definition json_ws :: "char \<Rightarrow> bool" where
  "json_ws c = (c = CHR 0x20 \<or> c = CHR 0x0A \<or> c = CHR 0x0D \<or> c = CHR 0x09)"

definition skip_ws :: "string \<Rightarrow> string" where
  "skip_ws s = dropWhile json_ws s"

definition expect :: "char \<Rightarrow> string \<Rightarrow> string option" where
  "expect c s = (case s of [] \<Rightarrow> None | d # r \<Rightarrow> if d = c then Some r else None)"

definition hex_value :: "char \<Rightarrow> nat option" where
  "hex_value c =
     map_of (zip ''0123456789abcdefABCDEF''
       [0, 1, 2, 3, 4, 5, 6, 7, 8, 9, 10, 11, 12, 13, 14, 15, 10, 11, 12, 13, 14, 15]) c"

definition unescape :: "char \<Rightarrow> char option" where
  "unescape c =
     map_of [(CHR 0x22, CHR 0x22), (CHR 0x5C, CHR 0x5C), (CHR ''/'', CHR ''/''),
             (CHR ''b'', CHR 0x08), (CHR ''f'', CHR 0x0C), (CHR ''n'', CHR 0x0A),
             (CHR ''r'', CHR 0x0D), (CHR ''t'', CHR 0x09)] c"

definition unicode_escape :: "string \<Rightarrow> (char \<times> string) option" where
  \<comment> \<open>the four digits after \<^verbatim>\<open>\u\<close>\<close>
  "unicode_escape s =
     (case s of
        a # b # c # d # rest \<Rightarrow>
          (case (hex_value a, hex_value b, hex_value c, hex_value d) of
             (Some 0, Some 0, Some h, Some l) \<Rightarrow> Some (char_of (16 * h + l), rest)
           | _ \<Rightarrow> None)
      | _ \<Rightarrow> None)"

fun parse_chars :: "string \<Rightarrow> string \<Rightarrow> (string \<times> string) option" where
  \<comment> \<open>the characters of a string up to its closing quote\<close>
  "parse_chars acc [] = None"
| "parse_chars acc (c # cs) =
     (if c = CHR 0x22 then Some (rev acc, cs)
      else if c = CHR 0x5C then
        (case cs of
           [] \<Rightarrow> None
         | e # cs' \<Rightarrow>
             if e = CHR ''u''
             then (case unicode_escape cs' of
                     None \<Rightarrow> None
                   | Some (x, rest) \<Rightarrow> parse_chars (x # acc) (drop 4 cs'))
             else (case unescape e of
                     None \<Rightarrow> None
                   | Some x \<Rightarrow> parse_chars (x # acc) cs'))
      else if (of_char c :: nat) < 32 then None
      else parse_chars (c # acc) cs)"

definition digit_value :: "char \<Rightarrow> nat option" where
  "digit_value c = map_of (zip ''0123456789'' [0, 1, 2, 3, 4, 5, 6, 7, 8, 9]) c"

definition digits_value :: "string \<Rightarrow> nat" where
  "digits_value ds = foldl (\<lambda>n c. 10 * n + (case digit_value c of Some d \<Rightarrow> d | None \<Rightarrow> 0)) 0 ds"

definition parse_number :: "string \<Rightarrow> (json \<times> string) option" where
  "parse_number s =
     (let negative = (s \<noteq> [] \<and> hd s = CHR ''-'');
          r = (if negative then tl s else s);
          ds = takeWhile (\<lambda>c. digit_value c \<noteq> None) r;
          rest = dropWhile (\<lambda>c. digit_value c \<noteq> None) r;
          v = (if negative then - int (digits_value ds) else int (digits_value ds))
      in if ds = [] \<or> (1 < length ds \<and> hd ds = CHR ''0'') then None
         else if rest \<noteq> [] \<and> hd rest \<in> set ''.eE'' then None
         else if v < - (2 ^ 53) \<or> 2 ^ 53 \<le> v then None
         else Some (JNum (word_of_int v), rest))"

fun parse_value :: "nat \<Rightarrow> string \<Rightarrow> (json \<times> string) option"
  and parse_elements :: "nat \<Rightarrow> json list \<Rightarrow> string \<Rightarrow> (json \<times> string) option"
  and parse_members :: "nat \<Rightarrow> (string \<times> json) list \<Rightarrow> string \<Rightarrow> (json \<times> string) option" where
  "parse_value 0 s = None"
| "parse_value (Suc n) s =
     (case s of
        [] \<Rightarrow> None
      | c # cs \<Rightarrow>
          if c = CHR ''{'' then
            (case expect (CHR ''}'') (skip_ws cs) of
               Some rest \<Rightarrow> Some (JObj [], rest)
             | None \<Rightarrow> parse_members n [] cs)
          else if c = CHR ''['' then
            (case expect (CHR '']'') (skip_ws cs) of
               Some rest \<Rightarrow> Some (JArr [], rest)
             | None \<Rightarrow> parse_elements n [] cs)
          else if c = CHR 0x22 then
            (case parse_chars [] cs of
               None \<Rightarrow> None
             | Some (str, rest) \<Rightarrow> Some (JStr str, rest))
          else if prefix ''null'' s then Some (JNull, drop 4 s)
          else if prefix ''true'' s then Some (JBool True, drop 4 s)
          else if prefix ''false'' s then Some (JBool False, drop 5 s)
          else parse_number s)"
| "parse_elements 0 acc s = None"
| "parse_elements (Suc n) acc s =
     (case parse_value n (skip_ws s) of
        None \<Rightarrow> None
      | Some (v, r) \<Rightarrow>
          (case expect (CHR '','') (skip_ws r) of
             Some r' \<Rightarrow> parse_elements n (acc @ [v]) r'
           | None \<Rightarrow>
               (case expect (CHR '']'') (skip_ws r) of
                  Some r' \<Rightarrow> Some (JArr (acc @ [v]), r')
                | None \<Rightarrow> None)))"
| "parse_members 0 acc s = None"
| "parse_members (Suc n) acc s =
     (case expect (CHR 0x22) (skip_ws s) of
        None \<Rightarrow> None
      | Some r \<Rightarrow>
          (case parse_chars [] r of
             None \<Rightarrow> None
           | Some (k, r1) \<Rightarrow>
               (case expect (CHR '':'') (skip_ws r1) of
                  None \<Rightarrow> None
                | Some r2 \<Rightarrow>
                    (case parse_value n (skip_ws r2) of
                       None \<Rightarrow> None
                     | Some (v, r3) \<Rightarrow>
                         (case expect (CHR '','') (skip_ws r3) of
                            Some r4 \<Rightarrow> parse_members n (AList.update k v acc) r4
                          | None \<Rightarrow>
                              (case expect (CHR ''}'') (skip_ws r3) of
                                 Some r4 \<Rightarrow> Some (JObj (AList.update k v acc), r4)
                               | None \<Rightarrow> None))))))"

definition JSON_parse :: "string \<Rightarrow> json option" where
  "JSON_parse s =
     (case parse_value (length s) (skip_ws s) of
        None \<Rightarrow> None
      | Some (v, rest) \<Rightarrow> if skip_ws rest = [] then Some v else None)"


subsection \<open>Values the printer and the reader agree on\<close>

text \<open>
  \<^verbatim>\<open>JSON.stringify\<close> leaves out a property whose value is \<^verbatim>\<open>undefined\<close> and prints
  \<^verbatim>\<open>null\<close> for such an element of an array, so a value with \<^verbatim>\<open>undefined\<close> inside is not
  what the reader returns for its text. A value is well formed when it holds no
  \<^verbatim>\<open>undefined\<close> and the keys of each of its objects are distinct, as those of a
  JavaScript object are. \<open>nodes\<close> counts the values the reader has to read for it.
\<close>

fun well_formed :: "json \<Rightarrow> bool" where
  "well_formed JUndefined = False"
| "well_formed (JArr xs) = list_all well_formed xs"
| "well_formed (JObj kvs) = (distinct (map fst kvs) \<and> list_all (\<lambda>kv. well_formed (snd kv)) kvs)"
| "well_formed v = True"

fun nodes :: "json \<Rightarrow> nat" where
  "nodes (JArr xs) = Suc (sum_list (map (\<lambda>x. Suc (nodes x)) xs))"
| "nodes (JObj kvs) = Suc (sum_list (map (\<lambda>kv. Suc (nodes (snd kv))) kvs))"
| "nodes v = 1"

definition number_end :: "string \<Rightarrow> bool" where
  \<comment> \<open>what may follow the digits of a number: nothing, or no digit, point or exponent\<close>
  "number_end rest = (rest = [] \<or> (digit_value (hd rest) = None \<and> hd rest \<notin> set ''.eE''))"

definition value_start :: "char \<Rightarrow> bool" where
  \<comment> \<open>the first character of the text of a value\<close>
  "value_start c = (c \<in> set ''-0123456789ntf[{'' \<or> c = CHR 0x22)"

definition round_trip :: "json \<Rightarrow> bool" where
  \<comment> \<open>the reader, given fuel for the nodes of \<open>v\<close>, reads \<open>v\<close> from its text at any
      indentation and leaves what follows the text\<close>
  "round_trip v =
     (\<forall>ind n rest s. well_formed v \<and> ser ind v = Some s \<and> set ind \<subseteq> {CHR 0x20}
        \<and> number_end rest \<and> nodes v \<le> n \<longrightarrow> parse_value n (s @ rest) = Some (v, rest))"

definition text_bound :: "json \<Rightarrow> bool" where
  \<comment> \<open>the text of \<open>v\<close> has at least one character for each of its nodes\<close>
  "text_bound v = (\<forall>ind s. well_formed v \<and> ser ind v = Some s \<longrightarrow> nodes v \<le> length s)"


section \<open>Runs of calls\<close>

record log_call =
  at :: string
  type_of :: string
  title_of :: json
  description_of :: json
  metadata_of :: json

fun log_all :: "logs_dir \<Rightarrow> log_call list \<Rightarrow> logs_dir option" where
  \<comment> \<open>one call of \<open>Logger.log\<close> after the other, as long as each returns true; \<open>None\<close>
      when one returns false or is rejected\<close>
  "log_all fs [] = Some fs"
| "log_all fs (c # cs) =
     (case Logger_log fs (at c) (type_of c) (title_of c) (description_of c) (metadata_of c) of
        Inr (True, fs') \<Rightarrow> log_all fs' cs
      | Inr (False, fs') \<Rightarrow> None
      | Inl error \<Rightarrow> None)"

definition content :: "logs_dir \<Rightarrow> string \<Rightarrow> string" where
  \<comment> \<open>what a stream holds: the text of its file, nothing before the file exists\<close>
  "content fs name = (case readFile fs name of Inr s \<Rightarrow> s | Inl e \<Rightarrow> [])"

definition writable :: "logs_dir \<Rightarrow> string \<Rightarrow> bool" where
  \<comment> \<open>the names \<^verbatim>\<open>fs.writeFile\<close> and \<^verbatim>\<open>fs.appendFile\<close> succeed on\<close>
  "writable fs name = (case fs name of None \<Rightarrow> True | Some (File s) \<Rightarrow> True | _ \<Rightarrow> False)"

definition call :: "string \<Rightarrow> string \<Rightarrow> string \<Rightarrow> log_call" where
  \<comment> \<open>a call with a title alone: \<^verbatim>\<open>logger.log(type, title)\<close> at the time \<open>ts\<close>\<close>
  "call ts ty title =
     \<lparr>at = ts, type_of = ty, title_of = JStr title, description_of = JStr [],
      metadata_of = JObj []\<rparr>"

definition line_of :: "log_call \<Rightarrow> string" where
  \<comment> \<open>the compact line of a call that is not rejected\<close>
  "line_of c =
     (case logLine (at c) (type_of c) (title_of c) (or_default (description_of c) (JStr [])) of
        Inr line \<Rightarrow> line
      | Inl error \<Rightarrow> [])"

definition entry_of :: "log_call \<Rightarrow> json" where
  \<comment> \<open>the \<^verbatim>\<open>logEntry\<close> of a call\<close>
  "entry_of c =
     logEntry (at c) (type_of c) (title_of c) (or_default (description_of c) (JStr []))
       (or_default (metadata_of c) (JObj []))"


section \<open>Validation of a submission\<close>

lemma allowed_type_Some: "allowed_type v = Some t \<longleftrightarrow> v = JStr t \<and> t \<in> set allowedTypes"
  by (cases v) (auto simp: allowed_type_def)

text \<open>
  Claim C3. A submission whose type is absent or empty, whose title is absent or
  empty, or whose type is not one of \<^verbatim>\<open>api-failed\<close>, \<^verbatim>\<open>log\<close>, \<^verbatim>\<open>error\<close> is answered with
  the validation error (status 400), and the directory is left as it was:
  \<open>Logger.log\<close> is not reached, nothing is written. An absent field reads as
  \<open>JUndefined\<close> and an empty one is \<open>JStr []\<close>; both are among the values \<^verbatim>\<open>!type\<close> and
  \<^verbatim>\<open>!title\<close> reject, which the hypothesis takes in full.
\<close>

theorem invalid_submission_rejected:
  assumes "\<not> js_truthy (field (body req) ''type'')
           \<or> \<not> js_truthy (field (body req) ''title'')
           \<or> field (body req) ''type'' \<notin> JStr ` set allowedTypes"
  shows "post_log fs now later req =
           (Bad_request
              (if \<not> js_truthy (field (body req) ''type'') \<or> \<not> js_truthy (field (body req) ''title'')
               then ''Type and title are required fields''
               else ''Invalid event type. Allowed types: api-failed, log, error''),
            fs)"
proof (cases "\<not> js_truthy (field (body req) ''type'') \<or> \<not> js_truthy (field (body req) ''title'')")
  case True
  then show ?thesis by (auto simp: post_log_def Let_def)
next
  case False
  with assms have "field (body req) ''type'' \<notin> JStr ` set allowedTypes" by blast
  then have "allowed_type (field (body req) ''type'') = None"
    by (cases "allowed_type (field (body req) ''type'')") (auto simp: allowed_type_Some)
  with False show ?thesis by (simp add: post_log_def Let_def allowedTypes_def)
qed

theorem invalid_submission_rejected_witness:
  "post_log [''app_logs.txt'' \<mapsto> File ''a''] ''t0'' ''t1''
     \<lparr>body = [(''type'', JStr ''warning''), (''title'', JStr ''x'')],
      user_agent = JUndefined, ip = JUndefined\<rparr>
   = (Bad_request ''Invalid event type. Allowed types: api-failed, log, error'',
      [''app_logs.txt'' \<mapsto> File ''a''])
   \<and> post_log [''app_logs.txt'' \<mapsto> File ''a''] ''t0'' ''t1''
     \<lparr>body = [(''type'', JStr ''error''), (''title'', JStr [])],
      user_agent = JUndefined, ip = JUndefined\<rparr>
   = (Bad_request ''Type and title are required fields'', [''app_logs.txt'' \<mapsto> File ''a''])"
  using invalid_submission_rejected
    [of "\<lparr>body = [(''type'', JStr ''warning''), (''title'', JStr ''x'')],
          user_agent = JUndefined, ip = JUndefined\<rparr>"
        "[''app_logs.txt'' \<mapsto> File ''a'']" "''t0''" "''t1''"]
    invalid_submission_rejected
    [of "\<lparr>body = [(''type'', JStr ''error''), (''title'', JStr [])],
          user_agent = JUndefined, ip = JUndefined\<rparr>"
        "[''app_logs.txt'' \<mapsto> File ''a'']" "''t0''" "''t1''"]
  by (simp add: field_def js_truthy_def allowedTypes_def)


section \<open>Reading through GET /api/logs\<close>

text \<open>
  Claim C6. When the file of the requested stream cannot be read (it does not exist),
  or holds nothing but blank lines (in particular when it is empty), the answer is a
  success with no entries and a count of 0: no error is reported.
\<close>

theorem read_of_missing_or_empty:
  assumes "case readFile fs (selected_file type) of
             Inl e \<Rightarrow> True
           | Inr data \<Rightarrow> list_all blank (js_split data newline)"
  shows "success (get_api_logs fs type limit) \<and> logs (get_api_logs fs type limit) = []
         \<and> count (get_api_logs fs type limit) = 0"
proof (cases "readFile fs (selected_file type)")
  case (Inl e)
  then show ?thesis by (simp add: get_api_logs_def)
next
  case (Inr data)
  with assms have "filter (\<lambda>line. \<not> blank line) (js_split data newline) = []"
    by (simp add: list_all_iff)
  with Inr show ?thesis
    by (simp add: get_api_logs_def Let_def slice_last_def split: number.splits)
qed

theorem read_of_missing_or_empty_witness:
  "logs (get_api_logs Map.empty (Some ''error'') (Some (Num 10))) = []
   \<and> count (get_api_logs Map.empty (Some ''error'') (Some (Num 10))) = 0
   \<and> success (get_api_logs [''app_logs.txt'' \<mapsto> File []] None None)
   \<and> logs (get_api_logs [''app_logs.txt'' \<mapsto> File []] None None) = []"
  using read_of_missing_or_empty [of Map.empty "Some ''error''" "Some (Num 10)"]
    read_of_missing_or_empty [of "[''app_logs.txt'' \<mapsto> File []]" None None]
  by (simp add: readFile_def selected_file_def logFile_def js_split_def blank_def trim_def)

text \<open>
  Claim C9. A type in the query that is not one of the three is no error: the
  handler reads the main file, and answers exactly as it does to a query with no type.
\<close>

theorem unknown_type_reads_main:
  assumes "t \<notin> set allowedTypes"
  shows "get_api_logs fs (Some t) limit = get_api_logs fs None limit
         \<and> success (get_api_logs fs (Some t) limit)
         \<and> selected_file (Some t) = ''app_logs.txt''"
  using assms
  by (auto simp: get_api_logs_def selected_file_def logFile_def Let_def split: sum.splits)

theorem unknown_type_reads_main_witness:
  "get_api_logs [''app_logs.txt'' \<mapsto> File ''a'', ''debug_logs.txt'' \<mapsto> File ''b''] (Some ''debug'') None
   = get_api_logs [''app_logs.txt'' \<mapsto> File ''a'', ''debug_logs.txt'' \<mapsto> File ''b''] None None
   \<and> logs (get_api_logs [''app_logs.txt'' \<mapsto> File ''a'', ''debug_logs.txt'' \<mapsto> File ''b'']
        (Some ''debug'') None) = [''a'']"
  using unknown_type_reads_main
    [of "''debug''" "[''app_logs.txt'' \<mapsto> File ''a'', ''debug_logs.txt'' \<mapsto> File ''b'']" None]
  by (simp add: allowedTypes_def get_api_logs_def selected_file_def logFile_def readFile_def
      js_split_def newline_def blank_def trim_def is_space_def slice_last_def)


section \<open>Clearing through DELETE /api/logs\<close>

lemma writeFile_cases:
  "writeFile fs f text = (if writable fs f then Inr (fs(f \<mapsto> File text)) else
      Inl (case fs f of Some Dir \<Rightarrow> EISDIR | _ \<Rightarrow> EACCES))"
  by (auto simp: writeFile_def writable_def split: option.splits node.splits)

lemma appendFile_cases:
  "appendFile fs f text = (if writable fs f then Inr (fs(f \<mapsto> File (content fs f @ text))) else
      Inl (case fs f of Some Dir \<Rightarrow> EISDIR | _ \<Rightarrow> EACCES))"
  by (auto simp: appendFile_def writable_def content_def readFile_def split: option.splits node.splits)

lemma writable_upd: "writable (fs(g \<mapsto> File s)) f = (f = g \<or> writable fs f)"
  by (auto simp: writable_def)

lemma clear_files_eq:
  "clear_files fs fl = (\<lambda>f. if f \<in> set fl \<and> writable fs f then Some (File []) else fs f)"
proof (induction fl arbitrary: fs)
  case Nil
  then show ?case by simp
next
  case (Cons g fl)
  show ?case
  proof (cases "writable fs g")
    case True
    have "clear_files fs (g # fl) = clear_files (fs(g \<mapsto> File [])) fl"
      using True by (simp add: writeFile_cases)
    also have "\<dots> = (\<lambda>f. if f \<in> set fl \<and> writable (fs(g \<mapsto> File [])) f
                        then Some (File []) else (fs(g \<mapsto> File [])) f)"
      by (rule Cons.IH)
    also have "\<dots> = (\<lambda>f. if f \<in> set (g # fl) \<and> writable fs f then Some (File []) else fs f)"
      using True by (intro ext) (simp add: writable_upd)
    finally show ?thesis .
  next
    case False
    have "clear_files fs (g # fl) = clear_files fs fl"
      using False by (simp add: writeFile_cases)
    also have "\<dots> = (\<lambda>f. if f \<in> set (g # fl) \<and> writable fs f then Some (File []) else fs f)"
      using False by (intro ext) (auto simp: Cons.IH)
    finally show ?thesis .
  qed
qed

lemma selected_file_in_all: "selected_file type \<in> set all_files"
  by (auto simp: selected_file_def all_files_def allowedTypes_def typeFile_def logFile_def split: option.splits)

lemma read_empty_file:
  assumes "fs (selected_file type) = Some (File [])"
  shows "get_api_logs fs type limit =
    \<lparr>success = True, logs = [], count = 0, file_name = Some (selected_file type), message = None\<rparr>"
  using assms
  by (simp add: get_api_logs_def readFile_def js_split_def blank_def trim_def Let_def slice_last_def
      split: number.splits)

text \<open>
  Claim C4. Clearing everything (no type in the query, or the type \<^verbatim>\<open>all\<close>) always
  answers with success. Each of the four files that can be written (one that does not
  exist yet is created) is empty afterwards; when that holds for all four, as it does
  for the files the server has written itself, every read through \<^verbatim>\<open>GET /api/logs\<close>,
  whatever the type and the limit, is a success with no entries and a count of 0, and
  the dashboard's list for the main file and for each type is empty. Clearing a
  second time answers the same and leaves the directory as the first clearing left
  it.
\<close>

theorem clear_all:
  "fst (delete_logs fs None) = Cleared ''All logs cleared''
   \<and> delete_logs fs (Some ''all'') = delete_logs fs None
   \<and> (\<forall>f \<in> set all_files. writable fs f \<longrightarrow> snd (delete_logs fs None) f = Some (File []))
   \<and> ((\<forall>f \<in> set all_files. writable fs f) \<longrightarrow>
        (\<forall>type limit. success (get_api_logs (snd (delete_logs fs None)) type limit)
            \<and> logs (get_api_logs (snd (delete_logs fs None)) type limit) = []
            \<and> count (get_api_logs (snd (delete_logs fs None)) type limit) = 0)
        \<and> (\<forall>parse limit. view_logs parse (snd (delete_logs fs None)) None limit = []
            \<and> (\<forall>t \<in> set allowedTypes.
                  view_logs parse (snd (delete_logs fs None)) (Some t) limit = [])))
   \<and> delete_logs (snd (delete_logs fs None)) None = delete_logs fs None"
proof -
  let ?fs' = "snd (delete_logs fs None)"
  have eq: "?fs' = (\<lambda>f. if f \<in> set all_files \<and> writable fs f then Some (File []) else fs f)"
    by (simp add: delete_logs_def clear_files_eq)
  have w: "writable ?fs' f = writable fs f" for f
    unfolding eq by (auto simp: writable_def)
  have "clear_files ?fs' all_files = ?fs'"
    unfolding clear_files_eq w by (auto simp: eq fun_eq_iff)
  then have idem: "delete_logs ?fs' None = delete_logs fs None"
    by (simp add: delete_logs_def)
  have all: "delete_logs fs (Some ''all'') = delete_logs fs None"
    by (simp add: delete_logs_def allowedTypes_def)
  have trunc: "\<forall>f \<in> set all_files. writable fs f \<longrightarrow> ?fs' f = Some (File [])"
    by (simp add: eq)
  have reads: "success (get_api_logs ?fs' type limit) \<and> logs (get_api_logs ?fs' type limit) = []
       \<and> count (get_api_logs ?fs' type limit) = 0"
    if "\<forall>f \<in> set all_files. writable fs f" for type limit
  proof -
    from that selected_file_in_all have "?fs' (selected_file type) = Some (File [])"
      unfolding eq by simp
    then show ?thesis by (simp add: read_empty_file)
  qed
  have views: "view_logs parse ?fs' None limit = []
       \<and> (\<forall>t \<in> set allowedTypes. view_logs parse ?fs' (Some t) limit = [])"
    if w: "\<forall>f \<in> set all_files. writable fs f" for parse limit
  proof -
    have e: "readFile ?fs' f = Inr []" if "f \<in> set all_files" for f
      using that w unfolding eq by (simp add: readFile_def)
    have "logFile \<in> set all_files" by (simp add: all_files_def logFile_def)
    then have a: "view_logs parse ?fs' None limit = []"
      by (simp add: view_logs_def e js_split_def blank_def trim_def slice_last_def
          split: number.splits)
    have "view_logs parse ?fs' (Some t) limit = []" if "t \<in> set allowedTypes" for t
    proof -
      from that have "typeFile t \<in> set all_files" "t \<noteq> []" "t \<noteq> ''all''"
        by (auto simp: all_files_def allowedTypes_def typeFile_def)
      then show ?thesis
        by (simp add: view_logs_def e js_split_def blank_def trim_def slice_last_def
            split: number.splits)
    qed
    with a show ?thesis by blast
  qed
  have "fst (delete_logs fs None) = Cleared ''All logs cleared''"
    by (simp add: delete_logs_def)
  with all trunc reads views idem show ?thesis by blast
qed

theorem clear_all_witness:
  "logs (get_api_logs (snd (delete_logs [''app_logs.txt'' \<mapsto> File ''a'', ''error_logs.txt'' \<mapsto> File ''x''] None))
      (Some ''error'') (Some (Num 5))) = []
   \<and> snd (delete_logs [''app_logs.txt'' \<mapsto> File ''a'', ''error_logs.txt'' \<mapsto> File ''x''] None) ''log_logs.txt''
      = Some (File [])"
  using clear_all [of "[''app_logs.txt'' \<mapsto> File ''a'', ''error_logs.txt'' \<mapsto> File ''x'']"]
  by (simp add: all_files_def writable_def)

text \<open>
  Claim C5, as amended. For each of the three types, clearing with that type empties
  the file of the type and changes no other file, so a read of the main file returns
  what it returned before; when the file cannot be written the answer is the failure
  and nothing changes. No query clears the main file alone: any other type in the
  query clears all four files.
\<close>

theorem clear_of_one_type:
  assumes "t \<in> set allowedTypes"
  shows "(writable fs (typeFile t) \<longrightarrow>
            delete_logs fs (Some t) = (Cleared (t @ '' logs cleared''), fs(typeFile t \<mapsto> File [])))
       \<and> (\<not> writable fs (typeFile t) \<longrightarrow>
            delete_logs fs (Some t) = (Clear_failed ''Failed to clear logs'', fs))
       \<and> (\<forall>f. f \<noteq> typeFile t \<longrightarrow> snd (delete_logs fs (Some t)) f = fs f)
       \<and> get_api_logs (snd (delete_logs fs (Some t))) None limit = get_api_logs fs None limit
       \<and> (s \<notin> set allowedTypes \<longrightarrow> delete_logs fs (Some s) = delete_logs fs None)"
proof -
  have others: "s \<notin> set allowedTypes \<longrightarrow> delete_logs fs (Some s) = delete_logs fs None"
    by (simp add: delete_logs_def)
  from assms have ne: "t \<noteq> []" "typeFile t \<noteq> logFile"
    by (auto simp: allowedTypes_def typeFile_def logFile_def)
  have d: "delete_logs fs (Some t) =
      (if writable fs (typeFile t) then (Cleared (t @ '' logs cleared''), fs(typeFile t \<mapsto> File []))
       else (Clear_failed ''Failed to clear logs'', fs))"
    using assms ne by (simp add: delete_logs_def writeFile_cases)
  have frame: "\<forall>f. f \<noteq> typeFile t \<longrightarrow> snd (delete_logs fs (Some t)) f = fs f"
    by (simp add: d)
  then have "snd (delete_logs fs (Some t)) logFile = fs logFile"
    using ne by simp
  then have "get_api_logs (snd (delete_logs fs (Some t))) None limit = get_api_logs fs None limit"
    by (simp add: get_api_logs_def selected_file_def readFile_def)
  with d frame others show ?thesis by simp
qed

theorem clear_of_one_type_witness:
  "delete_logs [''app_logs.txt'' \<mapsto> File ''a'', ''error_logs.txt'' \<mapsto> File ''x''] (Some ''error'')
   = (Cleared ''error logs cleared'', [''app_logs.txt'' \<mapsto> File ''a'', ''error_logs.txt'' \<mapsto> File []])
   \<and> logs (get_api_logs (snd (delete_logs [''app_logs.txt'' \<mapsto> File ''a'', ''error_logs.txt'' \<mapsto> File ''x'']
        (Some ''error''))) None None) = [''a'']"
  using clear_of_one_type [of "''error''" "[''app_logs.txt'' \<mapsto> File ''a'', ''error_logs.txt'' \<mapsto> File ''x'']" None]
  by (simp add: allowedTypes_def writable_def typeFile_def get_api_logs_def selected_file_def
      logFile_def readFile_def js_split_def newline_def blank_def trim_def is_space_def
      slice_last_def)

text \<open>
  Claim C5 as stated fails for the selector \<^verbatim>\<open>aggregate\<close>: it is not one of the three
  types, so the handler clears all four files, the file of the errors among them.
\<close>

theorem clear_aggregate_counterexample:
  "delete_logs [''app_logs.txt'' \<mapsto> File ''a'', ''error_logs.txt'' \<mapsto> File ''x''] (Some ''aggregate'')
   = (Cleared ''All logs cleared'',
      [''app_logs.txt'' \<mapsto> File [], ''api-failed_logs.txt'' \<mapsto> File [], ''log_logs.txt'' \<mapsto> File [],
       ''error_logs.txt'' \<mapsto> File []])"
  by (simp add: delete_logs_def allowedTypes_def all_files_def writeFile_def fun_upd_twist)


section \<open>What Logger.log writes\<close>

lemma Logger_log_cases:
  "Logger_log fs ts ty title d m =
     (case logLine ts ty title (or_default d (JStr [])) of
        Inl e \<Rightarrow> Inl e
      | Inr l \<Rightarrow>
          Inr (if \<not> writable fs logFile then (False, fs)
               else if \<not> writable (fs(logFile \<mapsto> File (content fs logFile @ l @ newline)))
                          (typeFile ty)
                 then (False, fs(logFile \<mapsto> File (content fs logFile @ l @ newline)))
               else (True, (fs(logFile \<mapsto> File (content fs logFile @ l @ newline)))
                       (typeFile ty \<mapsto> File (content
                          (fs(logFile \<mapsto> File (content fs logFile @ l @ newline)))
                          (typeFile ty)
                          @ detailedLog (logEntry ts ty title (or_default d (JStr []))
                              (or_default m (JObj []))))))))"
  by (simp add: Logger_log_def appendFile_cases Let_def split: sum.splits)

lemma Logger_log_rejected:
  "Logger_log fs ts ty title d m = Inl e \<longleftrightarrow> logLine ts ty title (or_default d (JStr [])) = Inl e"
  by (simp add: Logger_log_cases split: sum.splits)

lemma TypeError_only: "(e :: js_error) = TypeError"
  by (cases e) simp

lemma logLine_rejected:
  "logLine ts ty title d = Inl e \<longleftrightarrow> throws title \<or> js_truthy d \<and> throws d"
  by (auto simp: logLine_def throws_def TypeError_only [of e] split: sum.splits intro: TypeError_only)

lemma content_upd: "content (fs(g \<mapsto> File s)) f = (if f = g then s else content fs f)"
  by (simp add: content_def readFile_def)

lemma Logger_log_True:
  assumes "Logger_log fs ts ty title d m = Inr (True, fs')" "typeFile ty \<noteq> logFile"
  shows "\<exists>l. logLine ts ty title (or_default d (JStr [])) = Inr l
     \<and> fs' = fs(logFile \<mapsto> File (content fs logFile @ l @ newline),
                typeFile ty \<mapsto> File (content fs (typeFile ty)
                  @ detailedLog (logEntry ts ty title (or_default d (JStr []))
                      (or_default m (JObj [])))))"
  using assms by (auto simp: Logger_log_cases content_upd split: if_splits sum.splits)

lemma or_default_field_or [simp]: "or_default (field_or obj k (JStr s)) d = field_or obj k (JStr s)"
  by (simp add: or_default_def field_or_def)

lemma or_default_JObj [simp]: "or_default (JObj m) d = JObj m"
  by (simp add: or_default_def)

lemma post_log_rejected:
  assumes "allowed_type (field (body req) ''type'') = Some t" and "js_truthy (field (body req) ''title'')"
    and "throws (field (body req) ''title'')
         \<or> js_truthy (field (body req) ''description'') \<and> throws (field (body req) ''description'')"
  shows "post_log fs now later req = (Server_error ''Internal server error'', fs)"
proof -
  let ?d = "field_or (body req) ''description'' (JStr [])"
  from assms(3) have "throws (field (body req) ''title'') \<or> js_truthy ?d \<and> throws ?d"
    by (auto simp: field_or_def js_truthy_def)
  then have "logLine now t (field (body req) ''title'') ?d = Inl TypeError"
    by (simp add: logLine_rejected)
  then have "Logger_log fs now t (field (body req) ''title'') ?d
      (JObj (merged_metadata (field_or (body req) ''metadata'' (JObj [])) (user_agent req) (ip req)))
    = Inl TypeError"
    by (simp add: Logger_log_rejected)
  moreover from assms(1) have "js_truthy (field (body req) ''type'')"
    by (auto simp: allowed_type_Some js_truthy_def allowedTypes_def)
  ultimately show ?thesis
    using assms(1,2) by (simp add: post_log_def Let_def)
qed

lemma post_log_object_title:
  "post_log [''app_logs.txt'' \<mapsto> File ''a''] ''t0'' ''t1''
     \<lparr>body = [(''type'', JStr ''error''), (''title'', JObj [(''toString'', JNum 1)])],
      user_agent = JUndefined, ip = JUndefined\<rparr>
   = (Server_error ''Internal server error'', [''app_logs.txt'' \<mapsto> File ''a''])"
  by (rule post_log_rejected [where t = "''error''"])
     (simp_all add: field_def allowed_type_def allowedTypes_def js_truthy_def throws_def)

lemma typeFile_not_logFile: "t \<in> set allowedTypes \<Longrightarrow> typeFile t \<noteq> logFile"
  by (auto simp: allowedTypes_def typeFile_def logFile_def)







section \<open>The files the server writes\<close>

text \<open>
  Whatever the handlers write is an ordinary file: from a directory in which every
  name can be written, the empty one to begin with, no submission and no clearing
  leads to one in which some name cannot. A stream that clearing cannot empty is
  not of the server's making.
\<close>


lemma writable_empty: "writable Map.empty f"
  by (simp add: writable_def)

lemma writable_after_log:
  assumes "\<forall>f. writable fs f" and "Logger_log fs ts ty title d m = Inr (b, fs')"
  shows "writable fs' f"
  using assms by (auto simp: Logger_log_cases writable_upd split: sum.splits if_splits)

lemma writable_after_post:
  assumes "\<forall>f. writable fs f"
  shows "writable (snd (post_log fs now later req)) f"
proof (cases "allowed_type (field (body req) ''type'')")
  case None
  with assms show ?thesis by (simp add: post_log_def Let_def)
next
  case (Some t)
  let ?l = "Logger_log fs now t (field (body req) ''title'')
      (field_or (body req) ''description'' (JStr []))
      (JObj (merged_metadata (field_or (body req) ''metadata'' (JObj [])) (user_agent req) (ip req)))"
  have "snd (post_log fs now later req) = fs
      \<or> (\<exists>b. ?l = Inr (b, snd (post_log fs now later req)))"
    using Some by (auto simp: post_log_def Let_def split: bool.splits sum.splits)
  with assms writable_after_log [OF assms] show ?thesis by auto
qed

lemma writable_after_delete:
  assumes "\<forall>f. writable fs f"
  shows "writable (snd (delete_logs fs type)) f"
  using assms
  by (auto simp: delete_logs_def clear_files_eq writeFile_cases writable_upd writable_def
      split: option.splits)


section \<open>The entries of a typed stream in the dashboard\<close>


lemma extract_json_Some:
  assumes "extract_json entry = Some j"
  shows "\<exists>pre mid post. entry = pre @ j @ post \<and> j = CHR ''{'' # mid @ [CHR ''}'']
           \<and> CHR ''{'' \<notin> set pre \<and> CHR ''}'' \<notin> set post"
proof -
  let ?pre = "takeWhile (\<lambda>c. c \<noteq> CHR ''{'') entry"
  from assms obtain c rest where cr: "dropWhile (\<lambda>c. c \<noteq> CHR ''{'') entry = c # rest"
    by (auto simp: extract_json_def split: list.splits)
  then have c: "c = CHR ''{''"
    using hd_dropWhile [of "\<lambda>c. c \<noteq> CHR ''{''" entry] by simp
  let ?post = "rev (takeWhile (\<lambda>c. c \<noteq> CHR ''}'') (rev rest))"
  from assms cr obtain d inner where di: "dropWhile (\<lambda>c. c \<noteq> CHR ''}'') (rev rest) = d # inner"
    and j: "j = c # rev (d # inner)"
    by (auto simp: extract_json_def split: list.splits)
  then have d: "d = CHR ''}''"
    using hd_dropWhile [of "\<lambda>c. c \<noteq> CHR ''}''" "rev rest"] by simp
  have "rev rest = takeWhile (\<lambda>c. c \<noteq> CHR ''}'') (rev rest) @ d # inner"
    using di takeWhile_dropWhile_id [of "\<lambda>c. c \<noteq> CHR ''}''" "rev rest"] by simp
  then have "rev (rev rest) = rev (takeWhile (\<lambda>c. c \<noteq> CHR ''}'') (rev rest) @ d # inner)"
    by simp
  then have rest: "rest = rev inner @ [d] @ ?post" by simp
  have "entry = ?pre @ c # rest"
    using cr takeWhile_dropWhile_id [of "\<lambda>c. c \<noteq> CHR ''{''" entry] by simp
  with rest have "entry = ?pre @ j @ ?post" by (simp add: j)
  moreover have "j = CHR ''{'' # rev inner @ [CHR ''}'']" by (simp add: j c d)
  moreover have "CHR ''{'' \<notin> set ?pre" by (auto dest: set_takeWhileD)
  moreover have "CHR ''}'' \<notin> set ?post" by (auto dest: set_takeWhileD)
  ultimately show ?thesis by blast
qed


lemma parse_entry_cases:
  "(\<exists>j v. extract_json piece = Some j \<and> parse j = Some v \<and> parse_entry parse piece = v)
   \<or> (parse_entry parse piece = JStr (trim piece)
       \<and> (extract_json piece = None \<or> (\<exists>j. extract_json piece = Some j \<and> parse j = None)))"
proof (cases "extract_json piece")
  case None
  then show ?thesis by (simp add: parse_entry_def)
next
  case (Some j)
  then show ?thesis by (cases "parse j") (simp_all add: parse_entry_def)
qed

text \<open>
  Claim C7. Reading a typed stream for the dashboard never fails on what the file
  holds, whatever \<open>parse\<close> does with it. When the file cannot be read the list is the
  one notice. Otherwise there is one entry for each piece between delimiters that is
  not blank, the newest first; an entry is the value \<open>parse\<close> returned for the text
  from the first opening brace of the piece to its last closing brace, and the
  trimmed piece itself when there is no such text or \<open>parse\<close> rejects it.
\<close>

theorem typed_entries_never_fail:
  assumes "t \<noteq> []" "t \<noteq> ''all''"
  shows "(\<forall>e. readFile fs (typeFile t) = Inl e \<longrightarrow>
            view_logs parse fs (Some t) limit = [JStr ''No logs found for this type''])
       \<and> (\<forall>data. readFile fs (typeFile t) = Inr data \<longrightarrow>
            view_logs parse fs (Some t) limit =
              map (parse_entry parse)
                (rev (slice_last (case limit of None \<Rightarrow> Num 50 | Some l \<Rightarrow> l)
                       (filter (\<lambda>entry. \<not> blank entry) (js_split data delimiter)))))
       \<and> (\<forall>piece.
            (\<exists>j v. extract_json piece = Some j \<and> parse j = Some v \<and> parse_entry parse piece = v)
            \<or> (parse_entry parse piece = JStr (trim piece)
                \<and> (extract_json piece = None
                    \<or> (\<exists>j. extract_json piece = Some j \<and> parse j = None))))
       \<and> (\<forall>piece j. extract_json piece = Some j \<longrightarrow>
            (\<exists>pre mid post. piece = pre @ j @ post \<and> j = CHR ''{'' # mid @ [CHR ''}'']
                \<and> CHR ''{'' \<notin> set pre \<and> CHR ''}'' \<notin> set post))"
proof -
  have a: "\<forall>e. readFile fs (typeFile t) = Inl e \<longrightarrow>
            view_logs parse fs (Some t) limit = [JStr ''No logs found for this type'']"
    using assms by (simp add: view_logs_def)
  have b: "\<forall>data. readFile fs (typeFile t) = Inr data \<longrightarrow>
            view_logs parse fs (Some t) limit =
              map (parse_entry parse)
                (rev (slice_last (case limit of None \<Rightarrow> Num 50 | Some l \<Rightarrow> l)
                       (filter (\<lambda>entry. \<not> blank entry) (js_split data delimiter))))"
    using assms by (simp add: view_logs_def)
  from a b parse_entry_cases [of _ parse] extract_json_Some show ?thesis
    by (intro conjI) blast+
qed



theorem typed_entries_never_fail_witness:
  "view_logs JSON_parse
     [''error_logs.txt'' \<mapsto> File (''{oops}'' @ delimiter @ '' plain text '' @ delimiter @ ''{}'')]
     (Some ''error'') None
   = [JObj [], JStr ''plain text'', JStr ''{oops}'']"
proof -
  let ?fs = "[''error_logs.txt'' \<mapsto> File (''{oops}'' @ delimiter @ '' plain text '' @ delimiter @ ''{}'')]"
  have r: "readFile ?fs (typeFile ''error'')
      = Inr (''{oops}'' @ delimiter @ '' plain text '' @ delimiter @ ''{}'')"
    by (simp add: readFile_def typeFile_def)
  have e: "map (parse_entry JSON_parse)
      (rev (slice_last (case None of None \<Rightarrow> Num 50 | Some l \<Rightarrow> l)
         (filter (\<lambda>entry. \<not> blank entry)
            (js_split (''{oops}'' @ delimiter @ '' plain text '' @ delimiter @ ''{}'') delimiter))))
     = [JObj [], JStr ''plain text'', JStr ''{oops}'']"
    by code_simp
  from typed_entries_never_fail [of "''error''" ?fs JSON_parse None] r e show ?thesis
    by simp
qed


section \<open>Compact lines in the dashboard\<close>

lemma match_here_backslash: "match_here s \<noteq> None \<Longrightarrow> s \<noteq> [] \<and> hd s = CHR 0x5C"
  by (auto simp: match_here_def split: list.splits if_splits)

lemma match_line_backslash: "match_line s \<noteq> None \<Longrightarrow> CHR 0x5C \<in> set s"
proof (induction s)
  case Nil
  then show ?case by simp
next
  case (Cons c cs)
  show ?case
  proof (cases "match_here (c # cs)")
    case None
    with Cons show ?thesis by simp
  next
    case (Some m)
    with match_here_backslash [of "c # cs"] show ?thesis by simp
  qed
qed

text \<open>
  What the expression does match: a line with the two backslash pairs in it. Without
  the optional part the callback throws, with it the entry is shown with the second
  group as its type and without a title.
\<close>

lemma match_line_examples:
  "match_line ([CHR 0x5C] @ ''( '' @ [CHR 0x5C] @ ''. abc'') = Some (''abc'', None)"
  "render_log (JStr ([CHR 0x5C] @ ''( '' @ [CHR 0x5C] @ ''. abc'')) = Inl TypeError"
  "render_log (JStr (''x'' @ [CHR 0x5C] @ ''( '' @ [CHR 0x5C] @ ''. abc''
      @ [CHR 0x5C] @ ''s-'' @ [CHR 0x5C] @ ''sdef''))
   = Inr (Compact_entry ''abc'' ''def'' None None)"
  by code_simp+

text \<open>
  Claim C8 is not what the handler does. A line of the form
  \<^verbatim>\<open>[<timestamp>] [<TYPE>] <title>\<close>, as \<open>Logger.log\<close> writes it, is not matched by the
  expression, which asks for a backslash: every line without a backslash is shown
  as the plain block that holds the raw line, and no timestamp, type, title or
  description is taken from it.
\<close>

theorem line_without_backslash_plain:
  assumes "CHR 0x5C \<notin> set line"
  shows "match_line line = None \<and> render_log (JStr line) = Inr (Plain_entry line)"
proof -
  from assms match_line_backslash [of line] have "match_line line = None" by blast
  then show ?thesis by (simp add: render_log_def)
qed

theorem line_without_backslash_plain_witness:
  "logLine ''2024-01-01T00:00:00.000Z'' ''error'' (JStr ''Crash'') (JStr ''npe'')
     = Inr ''[2024-01-01T00:00:00.000Z] [ERROR] Crash - npe''
   \<and> render_log (JStr ''[2024-01-01T00:00:00.000Z] [ERROR] Crash - npe'')
     = Inr (Plain_entry ''[2024-01-01T00:00:00.000Z] [ERROR] Crash - npe'')"
  using line_without_backslash_plain [of "''[2024-01-01T00:00:00.000Z] [ERROR] Crash - npe''"]
  by (simp add: logLine_def toUpperCase_def to_upper_char_def js_truthy_def)


section \<open>Splitting a stream into its entries\<close>


lemma occurs_imp_length: "occurs sep s \<Longrightarrow> length sep \<le> length s"
  by (induction s) (auto dest: prefix_length_le)

lemma prefix_append_short:
  assumes "prefix sep (u @ v)" "length sep \<le> length u"
  shows "prefix sep u"
  using assms by (auto simp: prefix_append)

lemma split_from_append:
  assumes "sep \<noteq> []" "\<not> occurs sep (x @ butlast sep)"
  shows "split_from sep acc (x @ sep @ rest) = (rev acc @ x) # split_from sep [] rest"
proof -
  from assms(1) obtain b l where sep: "sep = b @ [l]"
    by (cases sep rule: rev_cases) auto
  have b: "butlast sep = b" by (simp add: sep)
  from assms(2) b have "\<not> occurs sep (x @ b)" by simp
  then show ?thesis
  proof (induction x arbitrary: acc)
    case Nil
    from assms(1) obtain c cs where c: "sep = c # cs" by (cases sep) auto
    have "prefix sep (sep @ rest)" by simp
    then have "split_from sep acc (sep @ rest)
        = rev acc # split_from sep [] (drop (length sep) (sep @ rest))"
      using assms(1) by (simp only: c append_Cons split_from.simps) simp
    then show ?case by simp
  next
    case (Cons a x)
    have "\<not> prefix sep (a # x @ sep @ rest)"
    proof
      assume p: "prefix sep (a # x @ sep @ rest)"
      have e: "a # x @ sep @ rest = (a # x @ b) @ (l # rest)" by (simp add: sep)
      have "length sep \<le> length (a # x @ b)" by (simp add: sep)
      with p have "prefix sep (a # x @ b)"
        unfolding e by (rule prefix_append_short)
      with Cons.prems show False by simp
    qed
    moreover from Cons.prems have "\<not> occurs sep (x @ b)" by simp
    ultimately show ?case using Cons.IH [of "a # acc"] by simp
  qed
qed

lemma split_from_none:
  assumes "\<not> occurs sep s"
  shows "split_from sep acc s = [rev acc @ s]"
  using assms by (induction s arbitrary: acc) auto


lemma occurs_newline: "occurs newline s \<longleftrightarrow> CHR 0x0A \<in> set s"
  by (induction s) (auto simp: newline_def)

lemma split_lines:
  assumes "\<forall>l \<in> set ls. CHR 0x0A \<notin> set l"
  shows "js_split (concat (map (\<lambda>l. l @ newline) ls)) newline = ls @ [[]]"
  using assms
proof (induction ls)
  case Nil
  then show ?case by (simp add: js_split_def)
next
  case (Cons l ls)
  have "\<not> occurs newline (l @ butlast newline)"
    using Cons.prems by (simp add: occurs_newline) (simp add: newline_def)
  then have "split_from newline [] (l @ newline @ concat (map (\<lambda>l. l @ newline) ls))
      = (rev [] @ l) # split_from newline [] (concat (map (\<lambda>l. l @ newline) ls))"
    by (intro split_from_append) (simp_all add: newline_def)
  with Cons show ?case by (simp add: js_split_def)
qed

lemma split_from_char_append:
  "split_from [e] acc (a @ e # b) = split_from [e] acc a @ split_from [e] [] b"
  by (induction a arbitrary: acc) auto

lemma split_append_newline:
  "js_split (a @ newline @ b) newline = js_split a newline @ js_split b newline"
  by (simp add: js_split_def newline_def split_from_char_append)

lemma not_occurs_extend:
  assumes "\<not> occurs (replicate n e) y" "c \<noteq> e" "k < n"
  shows "\<not> occurs (replicate n e) (y @ c # replicate k e)"
  using assms(1)
proof (induction y)
  case Nil
  have "\<not> prefix (replicate n e) (c # replicate k e)"
    using assms(2,3) by (cases n) auto
  moreover have "\<not> occurs (replicate n e) (replicate k e)"
    using assms(3) occurs_imp_length [of "replicate n e" "replicate k e"] by auto
  ultimately show ?case by simp
next
  case (Cons a y)
  have "\<not> prefix (replicate n e) (a # y @ c # replicate k e)"
  proof
    assume p: "prefix (replicate n e) (a # y @ c # replicate k e)"
    show False
    proof (cases "n \<le> length (a # y)")
      case True
      with p have "prefix (replicate n e) (a # y)"
        using prefix_append_short [of "replicate n e" "a # y" "c # replicate k e"] by simp
      with Cons.prems show False by simp
    next
      case False
      then have l: "length (a # y) < n" by simp
      from p obtain zs where "a # y @ c # replicate k e = replicate n e @ zs"
        by (auto simp: prefix_def)
      then have "(a # y @ c # replicate k e) ! length (a # y) = (replicate n e @ zs) ! length (a # y)"
        by simp
      moreover have "(a # y @ c # replicate k e) ! length (a # y) = c"
        using nth_append_length [of "a # y" c "replicate k e"] by simp
      moreover have "(replicate n e @ zs) ! length (a # y) = e"
        using l by (simp add: nth_append)
      ultimately show False using assms(2) by simp
    qed
  qed
  moreover from Cons.prems have "\<not> occurs (replicate n e) y" by simp
  ultimately show ?case using Cons.IH by simp
qed

lemma butlast_delimiter: "butlast delimiter = replicate 49 CHR ''=''"
  by (simp add: delimiter_def butlast_conv_take)

lemma delimiter_not_Nil: "delimiter \<noteq> []"
  by (simp add: delimiter_def)

lemma delimiter_Cons: "delimiter = CHR ''='' # replicate 49 CHR ''=''"
  by (simp add: delimiter_def eval_nat_numeral)

lemma not_occurs_before_delimiter:
  assumes "\<not> occurs delimiter r" "p = [] \<or> p = newline"
  shows "\<not> occurs delimiter ((p @ r @ newline) @ butlast delimiter)"
proof -
  from assms have "\<not> occurs delimiter (p @ r)"
    by (auto simp: newline_def delimiter_Cons)
  then have "\<not> occurs (replicate 50 CHR ''='') ((p @ r) @ CHR 0x0A # replicate 49 CHR ''='')"
    unfolding delimiter_def by (intro not_occurs_extend) simp_all
  then show ?thesis unfolding butlast_delimiter by (simp add: delimiter_def newline_def)
qed

lemma split_records:
  assumes "\<forall>r \<in> set rs. \<not> occurs delimiter r" "p = [] \<or> p = newline"
  shows "split_from delimiter (rev p) (concat (map (\<lambda>r. r @ newline @ delimiter @ newline) rs))
         = (case rs of
              [] \<Rightarrow> [p]
            | r # rs' \<Rightarrow> (p @ r @ newline) # map (\<lambda>r. newline @ r @ newline) rs' @ [newline])"
  using assms
proof (induction rs arbitrary: p)
  case Nil
  then show ?case by simp
next
  case (Cons r rs)
  let ?rest = "concat (map (\<lambda>r. r @ newline @ delimiter @ newline) rs)"
  have "split_from delimiter (rev p) ((p' @ r @ newline) @ delimiter @ newline @ ?rest)
        = (rev (rev p) @ p' @ r @ newline) # split_from delimiter [] (newline @ ?rest)"
    if "p' = []" for p'
    using that Cons.prems not_occurs_before_delimiter [of r "[]"]
    by (intro split_from_append delimiter_not_Nil) simp_all
  then have 1: "split_from delimiter (rev p) (r @ newline @ delimiter @ newline @ ?rest)
        = (p @ r @ newline) # split_from delimiter [] (newline @ ?rest)"
    by simp
  have 2: "split_from delimiter [] (newline @ ?rest) = split_from delimiter (rev newline) ?rest"
    by (simp add: newline_def delimiter_Cons)
  have 3: "split_from delimiter (rev newline) ?rest
      = (case rs of [] \<Rightarrow> [newline]
         | r # rs' \<Rightarrow> (newline @ r @ newline) # map (\<lambda>r. newline @ r @ newline) rs' @ [newline])"
    using Cons.prems by (intro Cons.IH) simp_all
  have "split_from delimiter (rev newline) ?rest = map (\<lambda>r. newline @ r @ newline) rs @ [newline]"
    unfolding 3 by (cases rs) simp_all
  with 1 2 show ?case by simp
qed


section \<open>The streams after a run of appends\<close>


lemma typeFile_inj: "typeFile t = typeFile t' \<longleftrightarrow> t = t'"
  by (simp add: typeFile_def)

lemma log_all_Cons:
  assumes "log_all fs (c # cs) = Some fs'"
  shows "\<exists>fs1. Logger_log fs (at c) (type_of c) (title_of c) (description_of c) (metadata_of c)
            = Inr (True, fs1) \<and> log_all fs1 cs = Some fs'"
  using assms by (auto split: sum.splits prod.splits bool.splits)

lemma Logger_log_call:
  assumes "Logger_log fs (at c) (type_of c) (title_of c) (description_of c) (metadata_of c)
            = Inr (True, fs1)"
  shows "logLine (at c) (type_of c) (title_of c) (or_default (description_of c) (JStr []))
            = Inr (line_of c)"
    and "typeFile (type_of c) \<noteq> logFile \<Longrightarrow>
         fs1 = fs(logFile \<mapsto> File (content fs logFile @ line_of c @ newline),
                  typeFile (type_of c) \<mapsto>
                    File (content fs (typeFile (type_of c)) @ detailedLog (entry_of c)))"
proof -
  from assms obtain l where
    l: "logLine (at c) (type_of c) (title_of c) (or_default (description_of c) (JStr [])) = Inr l"
    by (auto simp: Logger_log_cases split: sum.splits)
  then have eq: "line_of c = l" by (simp add: line_of_def)
  with l show "logLine (at c) (type_of c) (title_of c) (or_default (description_of c) (JStr []))
            = Inr (line_of c)" by simp
  assume "typeFile (type_of c) \<noteq> logFile"
  from Logger_log_True [OF assms this] l eq
  show "fs1 = fs(logFile \<mapsto> File (content fs logFile @ line_of c @ newline),
                  typeFile (type_of c) \<mapsto>
                    File (content fs (typeFile (type_of c)) @ detailedLog (entry_of c)))"
    by (simp add: entry_of_def)
qed

lemma log_all_lines:
  assumes "log_all fs cs = Some fs'" and "c \<in> set cs"
  shows "logLine (at c) (type_of c) (title_of c) (or_default (description_of c) (JStr []))
            = Inr (line_of c)"
  using assms
proof (induction cs arbitrary: fs)
  case Nil
  then show ?case by simp
next
  case (Cons a cs)
  from log_all_Cons [OF Cons.prems(1)] obtain fs1 where
    l: "Logger_log fs (at a) (type_of a) (title_of a) (description_of a) (metadata_of a) = Inr (True, fs1)"
    and r: "log_all fs1 cs = Some fs'"
    by blast
  show ?case
  proof (cases "c = a")
    case True
    with Logger_log_call(1) [OF l] show ?thesis by simp
  next
    case False
    with Cons.prems(2) Cons.IH [OF r] show ?thesis by simp
  qed
qed

lemma log_all_logFile:
  assumes "log_all fs cs = Some fs'" "\<forall>c \<in> set cs. type_of c \<in> set allowedTypes"
  shows "fs' logFile =
     (if cs = [] then fs logFile
      else Some (File (content fs logFile @ concat (map (\<lambda>c. line_of c @ newline) cs))))"
  using assms
proof (induction cs arbitrary: fs)
  case Nil
  then show ?case by simp
next
  case (Cons c cs)
  from log_all_Cons [OF Cons.prems(1)] obtain fs1 where
    l: "Logger_log fs (at c) (type_of c) (title_of c) (description_of c) (metadata_of c) = Inr (True, fs1)"
    and r: "log_all fs1 cs = Some fs'"
    by blast
  from Cons.prems(2) have ne: "typeFile (type_of c) \<noteq> logFile"
    by (simp add: typeFile_not_logFile)
  from Logger_log_call(2) [OF l ne] ne
  have 1: "fs1 logFile = Some (File (content fs logFile @ line_of c @ newline))"
    by simp
  then have 2: "content fs1 logFile = content fs logFile @ line_of c @ newline"
    by (simp add: content_def readFile_def)
  from Cons.IH [OF r] Cons.prems(2) 1 2 show ?case by simp
qed

lemma log_all_typeFile:
  assumes "log_all fs cs = Some fs'" "\<forall>c \<in> set cs. type_of c \<in> set allowedTypes"
    and "typeFile t \<noteq> logFile"
  shows "fs' (typeFile t) =
     (if filter (\<lambda>c. type_of c = t) cs = [] then fs (typeFile t)
      else Some (File (content fs (typeFile t)
             @ concat (map (\<lambda>c. detailedLog (entry_of c)) (filter (\<lambda>c. type_of c = t) cs)))))"
  using assms
proof (induction cs arbitrary: fs)
  case Nil
  then show ?case by simp
next
  case (Cons c cs)
  from log_all_Cons [OF Cons.prems(1)] obtain fs1 where
    l: "Logger_log fs (at c) (type_of c) (title_of c) (description_of c) (metadata_of c) = Inr (True, fs1)"
    and r: "log_all fs1 cs = Some fs'"
    by blast
  from Cons.prems(2) have ne: "typeFile (type_of c) \<noteq> logFile"
    by (simp add: typeFile_not_logFile)
  have ih: "fs' (typeFile t) =
     (if filter (\<lambda>c. type_of c = t) cs = [] then fs1 (typeFile t)
      else Some (File (content fs1 (typeFile t)
             @ concat (map (\<lambda>c. detailedLog (entry_of c)) (filter (\<lambda>c. type_of c = t) cs)))))"
    using Cons.IH [OF r] Cons.prems(2,3) by simp
  show ?case
  proof (cases "type_of c = t")
    case True
    with Logger_log_call(2) [OF l ne]
    have 1: "fs1 (typeFile t) = Some (File (content fs (typeFile t) @ detailedLog (entry_of c)))"
      by simp
    then have 2: "content fs1 (typeFile t) = content fs (typeFile t) @ detailedLog (entry_of c)"
      by (simp add: content_def readFile_def)
    from ih 1 2 True show ?thesis by simp
  next
    case False
    with Logger_log_call(2) [OF l ne] Cons.prems(3) have 1: "fs1 (typeFile t) = fs (typeFile t)"
      by (simp add: typeFile_inj)
    then have 2: "content fs1 (typeFile t) = content fs (typeFile t)"
      by (simp add: content_def readFile_def)
    from ih 1 2 False show ?thesis by simp
  qed
qed


lemma blank_iff: "blank s \<longleftrightarrow> (\<forall>c \<in> set s. is_space c)"
proof
  assume "blank s"
  then have a: "\<forall>x \<in> set (dropWhile is_space s). is_space x"
    by (simp add: blank_def trim_def)
  have "dropWhile is_space s = []"
  proof (rule ccontr)
    assume n: "dropWhile is_space s \<noteq> []"
    then have "hd (dropWhile is_space s) \<in> set (dropWhile is_space s)" by simp
    with a hd_dropWhile [OF n] show False by blast
  qed
  then show "\<forall>c \<in> set s. is_space c" by simp
next
  assume "\<forall>c \<in> set s. is_space c"
  then show "blank s" by (auto simp: blank_def trim_def dest: set_dropWhileD)
qed

lemma slice_last_map: "slice_last lim (map f xs) = map f (slice_last lim xs)"
  by (simp add: slice_last_def drop_map split: number.splits)

lemma stringify_object: "\<exists>mid. JSON_stringify (JObj kvs) = CHR ''{'' # mid @ [CHR ''}'']"
  by (simp add: JSON_stringify_def)

lemma stringify_entry: "\<exists>mid. JSON_stringify (entry_of c) = CHR ''{'' # mid @ [CHR ''}'']"
  unfolding entry_of_def logEntry_def by (rule stringify_object)

lemma extract_json_framed:
  assumes "CHR ''{'' \<notin> set p" "CHR ''}'' \<notin> set q"
  shows "extract_json (p @ (CHR ''{'' # mid @ [CHR ''}'']) @ q) = Some (CHR ''{'' # mid @ [CHR ''}''])"
proof -
  have 1: "dropWhile (\<lambda>c. c \<noteq> CHR ''{'') (p @ (CHR ''{'' # mid @ [CHR ''}'']) @ q)
      = CHR ''{'' # (mid @ [CHR ''}''] @ q)"
    using assms(1) by (subst dropWhile_append2) auto
  have 2: "dropWhile (\<lambda>c. c \<noteq> CHR ''}'') (rev q @ CHR ''}'' # rev mid) = CHR ''}'' # rev mid"
    using assms(2) by (subst dropWhile_append2) auto
  show ?thesis unfolding extract_json_def 1 by (simp add: 2)
qed

lemma trim_framed:
  assumes "\<not> is_space a" "\<not> is_space b" "\<forall>c \<in> set p. is_space c" "\<forall>c \<in> set q. is_space c"
  shows "trim (p @ (a # mid @ [b]) @ q) = a # mid @ [b]"
proof -
  have "dropWhile is_space (p @ (a # mid @ [b]) @ q) = (a # mid @ [b]) @ q"
    using assms(1,3) by (subst dropWhile_append2) auto
  moreover have "dropWhile is_space (rev ((a # mid @ [b]) @ q)) = b # rev mid @ [a]"
    using assms(2,4) by (simp, subst dropWhile_append2) auto
  ultimately show ?thesis by (simp add: trim_def)
qed

lemma parse_entry_framed:
  assumes "r = CHR ''{'' # mid @ [CHR ''}'']" "p = [] \<or> p = newline"
  shows "parse_entry parse (p @ r @ newline) = (case parse r of Some v \<Rightarrow> v | None \<Rightarrow> JStr r)"
proof -
  have e: "extract_json (p @ r @ newline) = Some r"
    using assms extract_json_framed [of p newline mid] by (auto simp: newline_def)
  have "trim (p @ r @ newline) = r"
    using assms trim_framed [of "CHR ''{''" "CHR ''}''" p newline mid]
    by (auto simp: newline_def is_space_def)
  with e show ?thesis by (simp add: parse_entry_def split: option.splits)
qed

lemma not_blank_framed:
  assumes "r = CHR ''{'' # mid @ [CHR ''}'']"
  shows "\<not> blank (p @ r @ q)"
  using assms by (auto simp: blank_iff is_space_def)

lemma not_blank_line: "logLine ts ty title d = Inr l \<Longrightarrow> \<not> blank l"
  by (auto simp: blank_iff logLine_def is_space_def split: sum.splits if_splits)

lemma blank_newline: "blank newline" "blank []"
  by (simp_all add: blank_iff newline_def is_space_def)

lemma lines_after_run:
  assumes "log_all fs0 cs = Some fs" "\<forall>c \<in> set cs. type_of c \<in> set allowedTypes"
    and "content fs0 logFile = []" "cs \<noteq> []"
    and "\<forall>c \<in> set cs. CHR 0x0A \<notin> set (line_of c)"
  shows "\<exists>data. readFile fs logFile = Inr data
     \<and> filter (\<lambda>line. \<not> blank line) (js_split data newline) = map line_of cs"
proof -
  let ?data = "concat (map (\<lambda>c. line_of c @ newline) cs)"
  from log_all_logFile [OF assms(1,2)] assms(3,4)
  have r: "readFile fs logFile = Inr ?data" by (simp add: readFile_def)
  have "?data = concat (map (\<lambda>l. l @ newline) (map line_of cs))" by (simp add: comp_def)
  then have "js_split ?data newline = map line_of cs @ [[]]"
    using split_lines [of "map line_of cs"] assms(5) by simp
  moreover have "\<forall>c \<in> set cs. \<not> blank (line_of c)"
    using not_blank_line [OF log_all_lines [OF assms(1)]] by blast
  ultimately have "filter (\<lambda>line. \<not> blank line) (js_split ?data newline) = map line_of cs"
    by (simp add: blank_newline filter_map comp_def filter_id_conv)
  with r show ?thesis by blast
qed

lemma records_after_run:
  assumes "log_all fs0 cs = Some fs" "\<forall>c \<in> set cs. type_of c \<in> set allowedTypes"
    and "content fs0 (typeFile t) = []" "t \<in> set allowedTypes"
    and "filter (\<lambda>c. type_of c = t) cs \<noteq> []"
    and "\<forall>c \<in> set cs. \<not> occurs delimiter (JSON_stringify (entry_of c))"
  shows "\<exists>data. readFile fs (typeFile t) = Inr data
     \<and> map (parse_entry parse) (filter (\<lambda>entry. \<not> blank entry) (js_split data delimiter))
       = map (\<lambda>c. case parse (JSON_stringify (entry_of c)) of
                     Some v \<Rightarrow> v
                   | None \<Rightarrow> JStr (JSON_stringify (entry_of c)))
           (filter (\<lambda>c. type_of c = t) cs)"
proof -
  let ?tcs = "filter (\<lambda>c. type_of c = t) cs"
  let ?rs = "map (\<lambda>c. JSON_stringify (entry_of c)) ?tcs"
  let ?data = "concat (map (\<lambda>c. detailedLog (entry_of c)) ?tcs)"
  let ?g = "\<lambda>r. case parse r of Some v \<Rightarrow> v | None \<Rightarrow> JStr r"
  from log_all_typeFile [OF assms(1,2) typeFile_not_logFile [OF assms(4)]] assms(3,5)
  have r: "readFile fs (typeFile t) = Inr ?data" by (simp add: readFile_def)
  have d: "?data = concat (map (\<lambda>r. r @ newline @ delimiter @ newline) ?rs)"
    by (simp add: comp_def detailedLog_def)
  have nd: "\<forall>r \<in> set ?rs. \<not> occurs delimiter r" using assms(6) by auto
  have br: "\<forall>r \<in> set ?rs. \<exists>mid. r = CHR ''{'' # mid @ [CHR ''}'']"
    using stringify_entry by auto
  from assms(5) obtain r rs' where rs: "?rs = r # rs'" by (cases ?rs) auto
  from split_records [OF nd, of "[]"] have
    s: "js_split ?data delimiter = (r @ newline) # map (\<lambda>r. newline @ r @ newline) rs' @ [newline]"
    by (simp add: js_split_def d rs)
  from br rs have brr: "\<exists>mid. r = CHR ''{'' # mid @ [CHR ''}'']"
    and brs: "\<forall>x \<in> set rs'. \<exists>mid. x = CHR ''{'' # mid @ [CHR ''}'']" by auto
  have f1: "\<not> blank (r @ newline)" using brr not_blank_framed [of r _ "[]" newline] by auto
  have f2: "filter (\<lambda>entry. \<not> blank entry) (map (\<lambda>r. newline @ r @ newline) rs')
      = map (\<lambda>r. newline @ r @ newline) rs'"
    using brs not_blank_framed by (auto simp: filter_id_conv)
  have f: "filter (\<lambda>entry. \<not> blank entry) (js_split ?data delimiter)
      = (r @ newline) # map (\<lambda>r. newline @ r @ newline) rs'"
    unfolding s using f1 f2 by (simp add: blank_newline)
  have p1: "parse_entry parse (r @ newline) = ?g r"
    using brr parse_entry_framed [of r _ "[]" parse] by auto
  have p2: "map (parse_entry parse) (map (\<lambda>r. newline @ r @ newline) rs') = map ?g rs'"
    using brs parse_entry_framed [of _ _ newline parse] by auto
  have "map (parse_entry parse) (filter (\<lambda>entry. \<not> blank entry) (js_split ?data delimiter))
      = map ?g ?rs"
    unfolding f rs using p1 p2 by simp
  also have "\<dots> = map (\<lambda>c. ?g (JSON_stringify (entry_of c))) ?tcs" by (simp add: comp_def)
  finally show ?thesis using r by blast
qed


lemma view_all_after_run:
  assumes "log_all fs0 cs = Some fs" "\<forall>c \<in> set cs. type_of c \<in> set allowedTypes"
    and "content fs0 logFile = []" "cs \<noteq> []"
    and "\<forall>c \<in> set cs. CHR 0x0A \<notin> set (line_of c)"
  shows "view_logs parse fs None (Some lim) = map JStr (rev (slice_last lim (map line_of cs)))"
    and "get_api_logs fs None (Some lim) =
           \<lparr>success = True, logs = slice_last lim (map line_of cs),
            count = length (slice_last lim (map line_of cs)),
            file_name = Some logFile, message = None\<rparr>"
proof -
  from lines_after_run [OF assms] obtain data where
    d: "readFile fs logFile = Inr data"
       "filter (\<lambda>line. \<not> blank line) (js_split data newline) = map line_of cs"
    by blast
  show "view_logs parse fs None (Some lim) = map JStr (rev (slice_last lim (map line_of cs)))"
    by (simp add: view_logs_def d)
  show "get_api_logs fs None (Some lim) =
           \<lparr>success = True, logs = slice_last lim (map line_of cs),
            count = length (slice_last lim (map line_of cs)),
            file_name = Some logFile, message = None\<rparr>"
    by (simp add: get_api_logs_def selected_file_def d Let_def)
qed

lemma view_type_after_run:
  assumes "log_all fs0 cs = Some fs" "\<forall>c \<in> set cs. type_of c \<in> set allowedTypes"
    and "content fs0 (typeFile t) = []" "t \<in> set allowedTypes"
    and "filter (\<lambda>c. type_of c = t) cs \<noteq> []"
    and "\<forall>c \<in> set cs. \<not> occurs delimiter (JSON_stringify (entry_of c))"
  shows "view_logs parse fs (Some t) (Some lim) =
           rev (slice_last lim
             (map (\<lambda>c. case parse (JSON_stringify (entry_of c)) of
                          Some v \<Rightarrow> v
                        | None \<Rightarrow> JStr (JSON_stringify (entry_of c)))
                (filter (\<lambda>c. type_of c = t) cs)))"
proof -
  from records_after_run [OF assms, of parse] obtain data where
    d: "readFile fs (typeFile t) = Inr data"
       "map (parse_entry parse) (filter (\<lambda>entry. \<not> blank entry) (js_split data delimiter))
       = map (\<lambda>c. case parse (JSON_stringify (entry_of c)) of
                     Some v \<Rightarrow> v
                   | None \<Rightarrow> JStr (JSON_stringify (entry_of c)))
           (filter (\<lambda>c. type_of c = t) cs)"
    by blast
  from assms(4) have t: "t \<noteq> []" "t \<noteq> ''all''" by (auto simp: allowedTypes_def)
  have "view_logs parse fs (Some t) (Some lim)
      = map (parse_entry parse)
          (rev (slice_last lim (filter (\<lambda>entry. \<not> blank entry) (js_split data delimiter))))"
    using t by (simp add: view_logs_def d(1))
  also have "\<dots> = rev (slice_last lim
      (map (parse_entry parse) (filter (\<lambda>entry. \<not> blank entry) (js_split data delimiter))))"
    by (simp add: rev_map slice_last_map)
  finally show ?thesis by (simp only: d(2))
qed

lemma slice_last_pos: "0 < n \<Longrightarrow> slice_last (Num n) xs = drop (length xs - nat n) xs"
  by (simp add: slice_last_def)


lemma split_delimiter_line: "js_split delimiter newline = [delimiter]"
proof -
  have "\<not> occurs newline delimiter" by (simp add: occurs_newline delimiter_def)
  then show ?thesis by (simp add: js_split_def split_from_none)
qed

lemma not_blank_delimiter: "\<not> blank delimiter"
  by (simp add: blank_iff delimiter_def is_space_def)

lemma lines_of_records:
  "filter (\<lambda>line. \<not> blank line)
     (js_split (concat (map (\<lambda>r. r @ newline @ delimiter @ newline) rs)) newline)
   = concat (map (\<lambda>r. filter (\<lambda>line. \<not> blank line) (js_split r newline) @ [delimiter]) rs)"
proof (induction rs)
  case Nil
  show ?case by (simp add: js_split_def blank_newline)
next
  case (Cons r rs)
  let ?rest = "concat (map (\<lambda>r. r @ newline @ delimiter @ newline) rs)"
  have "js_split (r @ newline @ delimiter @ newline @ ?rest) newline
      = js_split r newline @ [delimiter] @ js_split ?rest newline"
    by (simp only: split_append_newline split_delimiter_line)
  with Cons show ?case by (simp add: not_blank_delimiter)
qed

lemma api_logs_of_file:
  assumes "readFile fs (selected_file type) = Inr data"
  shows "get_api_logs fs type limit =
           \<lparr>success = True,
            logs = slice_last (case limit of None \<Rightarrow> Num 100 | Some l \<Rightarrow> l)
                     (filter (\<lambda>line. \<not> blank line) (js_split data newline)),
            count = length (slice_last (case limit of None \<Rightarrow> Num 100 | Some l \<Rightarrow> l)
                     (filter (\<lambda>line. \<not> blank line) (js_split data newline))),
            file_name = Some (selected_file type), message = None\<rparr>"
  using assms by (simp add: get_api_logs_def Let_def)

lemma log_all_other:
  assumes "log_all fs cs = Some fs'" "\<forall>c \<in> set cs. type_of c \<in> set allowedTypes"
    and "f \<noteq> logFile" "f \<notin> typeFile ` set allowedTypes"
  shows "fs' f = fs f"
  using assms
proof (induction cs arbitrary: fs)
  case Nil
  then show ?case by simp
next
  case (Cons c cs)
  from log_all_Cons [OF Cons.prems(1)] obtain fs1 where
    l: "Logger_log fs (at c) (type_of c) (title_of c) (description_of c) (metadata_of c) = Inr (True, fs1)"
    and r: "log_all fs1 cs = Some fs'"
    by blast
  from Cons.prems(2) have ne: "typeFile (type_of c) \<noteq> logFile"
    by (simp add: typeFile_not_logFile)
  from Cons.prems(2,4) have "f \<noteq> typeFile (type_of c)" by auto
  with Logger_log_call(2) [OF l ne] Cons.prems(3) have "fs1 f = fs f" by simp
  with Cons.IH [OF r] Cons.prems show ?case by simp
qed

lemma slice_last_all: "0 < n \<Longrightarrow> int (length xs) \<le> n \<Longrightarrow> slice_last (Num n) xs = xs"
  by (simp add: slice_last_def)



section \<open>The reader inverts the printer\<close>

text \<open>
  What \<open>JSON_stringify\<close> prints for a well-formed value, \<open>JSON_parse\<close> reads back as
  that value: digits and escapes first, then the values by induction, with the
  elements of an array and the members of an object read one after the other at
  their indentation.
\<close>


lemma less_16_cases:
  assumes "(k::nat) < 16"
  shows "k = 0 \<or> k = 1 \<or> k = 2 \<or> k = 3 \<or> k = 4 \<or> k = 5 \<or> k = 6 \<or> k = 7 \<or> k = 8 \<or> k = 9
       \<or> k = 10 \<or> k = 11 \<or> k = 12 \<or> k = 13 \<or> k = 14 \<or> k = 15"
  using assms by arith

lemma hex_value_digit: "k < 16 \<Longrightarrow> hex_value (digit_char k) = Some k"
  by (drule less_16_cases, elim disjE) (simp_all add: hex_value_def digit_char_def)

lemma digit_value_digit: "k < 10 \<Longrightarrow> digit_value (digit_char k) = Some k"
proof -
  assume "k < 10"
  then have "k < 16" by simp
  from less_16_cases [OF this] \<open>k < 10\<close> show ?thesis
    by (elim disjE) (simp_all add: digit_value_def digit_char_def)
qed

lemma digit_char_zero: "k < 10 \<Longrightarrow> digit_char k = CHR ''0'' \<longleftrightarrow> k = 0"
proof -
  assume "k < 10"
  then have "k < 16" by simp
  from less_16_cases [OF this] \<open>k < 10\<close> show ?thesis
    by (elim disjE) (simp_all add: digit_char_def)
qed

lemma show_nat_digits: "list_all (\<lambda>c. digit_value c \<noteq> None) (show_nat n)"
proof (induction n rule: show_nat.induct)
  case (1 n)
  show ?case
  proof (cases "n < 10")
    case True
    then show ?thesis by (subst show_nat.simps) (simp add: digit_value_digit)
  next
    case False
    with 1 show ?thesis by (subst show_nat.simps) (simp add: digit_value_digit)
  qed
qed

lemma show_nat_not_Nil: "show_nat n \<noteq> []"
  by (subst show_nat.simps) simp

lemma hd_show_nat: "hd (show_nat n) = CHR ''0'' \<longleftrightarrow> n = 0"
proof (induction n rule: show_nat.induct)
  case (1 n)
  show ?case
  proof (cases "n < 10")
    case True
    then show ?thesis by (subst show_nat.simps) (simp add: digit_char_zero)
  next
    case False
    then have "n div 10 \<noteq> 0" by simp
    with 1 False show ?thesis
      by (subst show_nat.simps) (simp add: hd_append show_nat_not_Nil)
  qed
qed

lemma digits_value_snoc:
  "digits_value (ds @ [c]) = 10 * digits_value ds + (case digit_value c of Some d \<Rightarrow> d | None \<Rightarrow> 0)"
  by (simp add: digits_value_def)

lemma digits_value_show_nat: "digits_value (show_nat n) = n"
proof (induction n rule: show_nat.induct)
  case (1 n)
  show ?case
  proof (cases "n < 10")
    case True
    then show ?thesis
      by (subst show_nat.simps) (simp add: digits_value_def digit_value_digit)
  next
    case False
    with 1 show ?thesis
      by (subst show_nat.simps) (simp add: digits_value_snoc digit_value_digit)
  qed
qed

lemma hd_show_nat_not_minus: "hd (show_nat n) \<noteq> CHR ''-''"
proof -
  from show_nat_digits [of n] show_nat_not_Nil [of n]
  have "digit_value (hd (show_nat n)) \<noteq> None"
    by (cases "show_nat n") simp_all
  then show ?thesis by (auto simp: digit_value_def)
qed

lemma parse_number_show_nat:
  assumes "number_end rest"
  shows "parse_number (show_nat n @ rest)
     = (if 2 ^ 53 \<le> int n then None else Some (JNum (word_of_int (int n)), rest))"
proof -
  let ?P = "\<lambda>c. digit_value c \<noteq> None"
  have tk: "takeWhile ?P (show_nat n @ rest) = show_nat n"
    using show_nat_digits [of n] assms
    by (cases rest) (auto simp: number_end_def list_all_iff takeWhile_append2 takeWhile_tail)
  have dr: "dropWhile ?P (show_nat n @ rest) = rest"
    using show_nat_digits [of n] assms
    by (cases rest) (auto simp: number_end_def list_all_iff dropWhile_append2)
  have neg: "\<not> (show_nat n @ rest \<noteq> [] \<and> hd (show_nat n @ rest) = CHR ''-'')"
    using hd_show_nat_not_minus [of n] show_nat_not_Nil [of n] by (simp add: hd_append)
  have lead: "\<not> (1 < length (show_nat n) \<and> hd (show_nat n) = CHR ''0'')"
  proof
    assume a: "1 < length (show_nat n) \<and> hd (show_nat n) = CHR ''0''"
    then have "n = 0" by (simp add: hd_show_nat)
    with a show False by (simp add: show_nat.simps)
  qed
  have e: "\<not> (rest \<noteq> [] \<and> hd rest \<in> set ''.eE'')"
    using assms by (auto simp: number_end_def)
  show ?thesis
    unfolding parse_number_def Let_def
    using neg lead e show_nat_not_Nil [of n]
    by (simp only: tk dr if_False digits_value_show_nat) simp
qed

lemma parse_number_show_int:
  assumes "number_end rest"
  shows "parse_number (show_int i @ rest)
     = (if i < - (2 ^ 53) \<or> 2 ^ 53 \<le> i then None else Some (JNum (word_of_int i), rest))"
proof (cases "i < 0")
  case False
  then show ?thesis
    using parse_number_show_nat [OF assms, of "nat i"] by (simp add: show_int_def)
next
  case True
  let ?n = "nat (- i)"
  let ?P = "\<lambda>c. digit_value c \<noteq> None"
  have tk: "takeWhile ?P (show_nat ?n @ rest) = show_nat ?n"
    using show_nat_digits [of ?n] assms
    by (cases rest) (auto simp: number_end_def list_all_iff takeWhile_append2 takeWhile_tail)
  have dr: "dropWhile ?P (show_nat ?n @ rest) = rest"
    using show_nat_digits [of ?n] assms
    by (cases rest) (auto simp: number_end_def list_all_iff dropWhile_append2)
  have lead: "\<not> (1 < length (show_nat ?n) \<and> hd (show_nat ?n) = CHR ''0'')"
  proof
    assume a: "1 < length (show_nat ?n) \<and> hd (show_nat ?n) = CHR ''0''"
    then have "?n = 0" by (simp add: hd_show_nat)
    with True show False by simp
  qed
  have e: "\<not> (rest \<noteq> [] \<and> hd rest \<in> set ''.eE'')"
    using assms by (auto simp: number_end_def)
  have s: "show_int i @ rest = CHR ''-'' # show_nat ?n @ rest"
    using True by (simp add: show_int_def)
  have negt: "(CHR ''-'' # show_nat ?n @ rest \<noteq> [] \<and> hd (CHR ''-'' # show_nat ?n @ rest) = CHR ''-'') = True"
    by simp
  have tl: "tl (CHR ''-'' # show_nat ?n @ rest) = show_nat ?n @ rest" by simp
  show ?thesis
    unfolding parse_number_def Let_def s
    using lead e show_nat_not_Nil [of ?n] True
    by (simp only: negt tl if_True tk dr digits_value_show_nat) auto
qed

lemma parse_number_sint:
  assumes "number_end rest"
  shows "parse_number (show_int (sint w) @ rest) = Some (JNum w, rest)"
  using sint_ge [of w] sint_lt [of w] by (simp add: parse_number_show_int [OF assms])

lemma char_cases_32:
  assumes "(of_char c :: nat) < 32"
  shows "of_char c div 16 < (16::nat)" "of_char c mod 16 < (16::nat)"
    "char_of (16 * (of_char c div 16) + of_char c mod 16 :: nat) = c"
  using assms by simp_all

lemma hex_zero: "hex_value CHR ''0'' = Some 0"
  by (simp add: hex_value_def)

lemma unicode_escape_quoted:
  assumes "(of_char c :: nat) < 32"
  shows "unicode_escape (CHR ''0'' # CHR ''0'' # digit_char (of_char c div 16)
            # digit_char (of_char c mod 16) # rest) = Some (c, rest)"
proof -
  have h: "hex_value (digit_char (of_char c div 16)) = Some (of_char c div 16)"
    "hex_value (digit_char (of_char c mod 16)) = Some (of_char c mod 16)"
    by (rule hex_value_digit, rule char_cases_32 [OF assms])+
  have z: "of_char c div 16 = (0::nat) \<or> of_char c div 16 = (1::nat)"
    using assms by auto
  show ?thesis
    unfolding unicode_escape_def using z
    by (auto simp: hex_zero h char_cases_32(3) [OF assms])
qed

lemma parse_chars_quoted:
  "parse_chars acc (concat (map quote_char s) @ CHR 0x22 # rest) = Some (rev acc @ s, rest)"
proof (induction s arbitrary: acc)
  case Nil
  show ?case by simp
next
  case (Cons c s)
  let ?r = "concat (map quote_char s) @ CHR 0x22 # rest"
  have IH: "\<And>x. parse_chars (x # acc) ?r = Some (rev acc @ x # s, rest)"
    using Cons.IH by simp
  consider (q) "c = CHR 0x22" | (b) "c = CHR 0x5C" | (e) "c \<in> set [CHR 0x08, CHR 0x09, CHR 0x0A, CHR 0x0C, CHR 0x0D]"
    | (u) "c \<notin> set [CHR 0x22, CHR 0x5C, CHR 0x08, CHR 0x09, CHR 0x0A, CHR 0x0C, CHR 0x0D]" "(of_char c :: nat) < 32"
    | (p) "c \<notin> set [CHR 0x22, CHR 0x5C, CHR 0x08, CHR 0x09, CHR 0x0A, CHR 0x0C, CHR 0x0D]" "\<not> (of_char c :: nat) < 32"
    by auto
  then show ?case
  proof cases
    case q
    then have "quote_char c = [CHR 0x5C, CHR 0x22]" by (simp add: quote_char_def)
    then show ?thesis using IH q by (simp add: unescape_def)
  next
    case b
    then have "quote_char c = [CHR 0x5C, CHR 0x5C]" by (simp add: quote_char_def)
    then show ?thesis using IH b by (simp add: unescape_def)
  next
    case e
    then consider "c = CHR 0x08" | "c = CHR 0x09" | "c = CHR 0x0A" | "c = CHR 0x0C" | "c = CHR 0x0D"
      by auto
    then show ?thesis
    proof cases
      case 1
      then have "quote_char c = [CHR 0x5C, CHR ''b'']" by (simp add: quote_char_def)
      then show ?thesis using IH 1 by (simp add: unescape_def)
    next
      case 2
      then have "quote_char c = [CHR 0x5C, CHR ''t'']" by (simp add: quote_char_def)
      then show ?thesis using IH 2 by (simp add: unescape_def)
    next
      case 3
      then have "quote_char c = [CHR 0x5C, CHR ''n'']" by (simp add: quote_char_def)
      then show ?thesis using IH 3 by (simp add: unescape_def)
    next
      case 4
      then have "quote_char c = [CHR 0x5C, CHR ''f'']" by (simp add: quote_char_def)
      then show ?thesis using IH 4 by (simp add: unescape_def)
    next
      case 5
      then have "quote_char c = [CHR 0x5C, CHR ''r'']" by (simp add: quote_char_def)
      then show ?thesis using IH 5 by (simp add: unescape_def)
    qed
  next
    case u
    then have "quote_char c = [CHR 0x5C, CHR ''u'', CHR ''0'', CHR ''0'',
              digit_char (of_char c div 16), digit_char (of_char c mod 16)]"
      by (simp add: quote_char_def)
    then show ?thesis
      using IH unicode_escape_quoted [OF u(2)] by simp
  next
    case p
    then have "quote_char c = [c]" by (simp add: quote_char_def)
    then show ?thesis using IH p by simp
  qed
qed

lemma parse_chars_quote:
  "parse_chars [] (tl (quote s) @ rest) = Some (s, rest)"
  using parse_chars_quoted [of "[]" s rest] by (simp add: quote_def)

lemma digit_value_chars: "digit_value c \<noteq> None \<Longrightarrow> c \<in> set ''0123456789''"
  by (auto simp: digit_value_def split: if_splits)

lemma hd_show_nat_digit: "hd (show_nat n) \<in> set ''0123456789''"
proof -
  from show_nat_digits [of n] show_nat_not_Nil [of n]
  have "digit_value (hd (show_nat n)) \<noteq> None"
    by (cases "show_nat n") simp_all
  then show ?thesis by (rule digit_value_chars)
qed

lemma show_int_head: "show_int i \<noteq> [] \<and> hd (show_int i) \<in> set ''-0123456789''"
  using hd_show_nat_digit [of "nat i"] show_nat_not_Nil [of "nat i"]
  by (auto simp: show_int_def)

lemma ser_head:
  assumes "ser ind v = Some s"
  shows "s \<noteq> [] \<and> value_start (hd s)"
proof (cases v)
  case (JNum i)
  with assms show_int_head [of "sint i"] show ?thesis by (auto simp: value_start_def)
qed (insert assms, auto simp: value_start_def quote_def split: if_splits)

lemma value_start_not_ws: "value_start c \<Longrightarrow> \<not> json_ws c"
  by (auto simp: value_start_def json_ws_def)

lemma well_formed_ser: "well_formed v \<Longrightarrow> \<exists>s. ser ind v = Some s"
  by (cases v) simp_all

lemma skip_ws_indent:
  assumes "set ind \<subseteq> {CHR 0x20}" and "t \<noteq> []" and "\<not> json_ws (hd t)"
  shows "skip_ws (newline @ ind @ t @ R) = t @ R"
proof -
  have "\<And>x. x \<in> set (newline @ ind) \<Longrightarrow> json_ws x"
    using assms(1) by (auto simp: newline_def json_ws_def)
  then have "dropWhile json_ws ((newline @ ind) @ t @ R) = dropWhile json_ws (t @ R)"
    by (rule dropWhile_append2)
  moreover from assms(2,3) have "dropWhile json_ws (t @ R) = t @ R"
    by (cases t) simp_all
  ultimately show ?thesis by (simp add: skip_ws_def)
qed

lemma skip_ws_start: "t \<noteq> [] \<Longrightarrow> \<not> json_ws (hd t) \<Longrightarrow> skip_ws (t @ R) = t @ R"
  by (cases t) (simp_all add: skip_ws_def)

lemma js_join_Cons: "js_join sep (a # as) = (if as = [] then a else a @ sep @ js_join sep as)"
  by (cases as) simp_all

lemma update_fresh: "k \<notin> fst ` set al \<Longrightarrow> AList.update k v al = al @ [(k, v)]"
  by (induction al) auto

lemma parse_value_atom:
  assumes "s \<noteq> []" "hd s \<notin> set ''{['' " "hd s \<noteq> CHR 0x22"
  shows "parse_value (Suc n) s =
     (if prefix ''null'' s then Some (JNull, drop 4 s)
      else if prefix ''true'' s then Some (JBool True, drop 4 s)
      else if prefix ''false'' s then Some (JBool False, drop 5 s)
      else parse_number s)"
  using assms by (cases s) simp_all

lemma parse_value_number:
  assumes "number_end rest"
  shows "parse_value (Suc n) (show_int (sint w) @ rest) = Some (JNum w, rest)"
proof -
  obtain c cs where s: "show_int (sint w) = c # cs" and c: "c \<in> set ''-0123456789''"
    using show_int_head [of "sint w"] by (cases "show_int (sint w)") auto
  have "parse_value (Suc n) (show_int (sint w) @ rest) = parse_number (show_int (sint w) @ rest)"
    unfolding s using c by (subst parse_value_atom) auto
  then show ?thesis by (simp add: parse_number_sint [OF assms])
qed

lemma round_tripD:
  assumes "round_trip v" "well_formed v" "ser ind v = Some s" "set ind \<subseteq> {CHR 0x20}"
    "number_end rest" "nodes v \<le> n"
  shows "parse_value n (s @ rest) = Some (v, rest)"
  using assms unfolding round_trip_def by blast

lemma number_end_simps:
  "number_end (newline @ R)" "number_end (CHR '','' # R)" "number_end []"
  by (simp_all add: number_end_def newline_def digit_value_def)

lemma parse_elements_ser:
  assumes "set ind \<subseteq> {CHR 0x20}" and "number_end rest"
  shows "xs \<noteq> [] \<Longrightarrow> \<forall>x \<in> set xs. round_trip x \<and> well_formed x \<Longrightarrow>
     sum_list (map (\<lambda>x. Suc (nodes x)) xs) \<le> f \<Longrightarrow>
     parse_elements f acc
       (newline @ (ind @ ''  '')
        @ js_join ('','' @ newline @ (ind @ ''  '')) (ser_elems (ind @ ''  '') xs)
        @ newline @ ind @ CHR '']'' # rest)
     = Some (JArr (acc @ xs), rest)"
proof (induction xs arbitrary: f acc)
  case Nil
  then show ?case by simp
next
  case (Cons x xs)
  let ?ind = "ind @ ''  ''"
  let ?sep = "'','' @ newline @ ?ind"
  have sp: "set ?ind \<subseteq> {CHR 0x20}" using assms(1) by auto
  from Cons.prems(2) have rx: "round_trip x" and wx: "well_formed x" by simp_all
  from well_formed_ser [OF wx] obtain t where t: "ser ?ind x = Some t" by blast
  from ser_head [OF t] have t0: "t \<noteq> []" and t1: "\<not> json_ws (hd t)"
    by (simp_all add: value_start_not_ws)
  from Cons.prems(3) obtain f' where f: "f = Suc f'" and fx: "nodes x \<le> f'"
    and fxs: "sum_list (map (\<lambda>x. Suc (nodes x)) xs) \<le> f'"
    by (cases f) auto
  let ?R = "if xs = [] then newline @ ind @ CHR '']'' # rest
            else ?sep @ js_join ?sep (ser_elems ?ind xs) @ newline @ ind @ CHR '']'' # rest"
  have shape: "newline @ ?ind @ js_join ?sep (ser_elems ?ind (x # xs)) @ newline @ ind @ CHR '']'' # rest
      = newline @ ?ind @ t @ ?R"
    using t by (cases xs) (simp_all add: js_join_Cons)
  have ne: "number_end ?R" by (simp add: number_end_simps)
  have pv: "parse_value f' (t @ ?R) = Some (x, ?R)"
    by (rule round_tripD [OF rx wx t sp ne fx])
  have sk: "skip_ws (newline @ ?ind @ t @ ?R) = t @ ?R"
    by (rule skip_ws_indent [OF sp t0 t1])
  show ?case
  proof (cases "xs = []")
    case True
    have "skip_ws (newline @ ind @ CHR '']'' # rest) = CHR '']'' # rest"
      using skip_ws_indent [OF assms(1), of "[CHR '']'']" rest] by (simp add: json_ws_def)
    with True pv sk show ?thesis
      unfolding shape f by (simp add: expect_def)
  next
    case False
    have "skip_ws ?R = ?R" using False by (simp add: skip_ws_def json_ws_def)
    moreover have "parse_elements f' (acc @ [x])
       (newline @ ?ind @ js_join ?sep (ser_elems ?ind xs) @ newline @ ind @ CHR '']'' # rest)
       = Some (JArr ((acc @ [x]) @ xs), rest)"
      using Cons.IH [OF False _ fxs] Cons.prems(2) by simp
    ultimately show ?thesis
      unfolding shape f using False pv sk by (simp add: expect_def)
  qed
qed

lemma ser_props_well_formed:
  "\<forall>kv \<in> set kvs. well_formed (snd kv) \<Longrightarrow>
     ser_props ind kvs = map (\<lambda>kv. quote (fst kv) @ '': '' @ the (ser ind (snd kv))) kvs"
proof (induction kvs)
  case Nil
  show ?case by simp
next
  case (Cons kv kvs)
  obtain k v where kv: "kv = (k, v)" by (cases kv)
  from Cons.prems kv obtain t where "ser ind v = Some t"
    using well_formed_ser [of v ind] by auto
  with Cons kv show ?case by simp
qed

lemma parse_members_ser:
  assumes "set ind \<subseteq> {CHR 0x20}" and "number_end rest"
  shows "kvs \<noteq> [] \<Longrightarrow> \<forall>kv \<in> set kvs. round_trip (snd kv) \<and> well_formed (snd kv) \<Longrightarrow>
     distinct (map fst (acc @ kvs)) \<Longrightarrow>
     sum_list (map (\<lambda>kv. Suc (nodes (snd kv))) kvs) \<le> f \<Longrightarrow>
     parse_members f acc
       (newline @ (ind @ ''  '')
        @ js_join ('','' @ newline @ (ind @ ''  '')) (ser_props (ind @ ''  '') kvs)
        @ newline @ ind @ CHR ''}'' # rest)
     = Some (JObj (acc @ kvs), rest)"
proof (induction kvs arbitrary: f acc)
  case Nil
  then show ?case by simp
next
  case (Cons kv kvs)
  obtain k x where kv: "kv = (k, x)" by (cases kv)
  let ?ind = "ind @ ''  ''"
  let ?sep = "'','' @ newline @ ?ind"
  have sp: "set ?ind \<subseteq> {CHR 0x20}" using assms(1) by auto
  from Cons.prems(2) kv have rx: "round_trip x" and wx: "well_formed x" by simp_all
  from well_formed_ser [OF wx] obtain t where t: "ser ?ind x = Some t" by blast
  from ser_head [OF t] have t0: "t \<noteq> []" and t1: "\<not> json_ws (hd t)"
    by (simp_all add: value_start_not_ws)
  from Cons.prems(4) kv obtain f' where f: "f = Suc f'" and fx: "nodes x \<le> f'"
    and fxs: "sum_list (map (\<lambda>kv. Suc (nodes (snd kv))) kvs) \<le> f'"
    by (cases f) auto
  from Cons.prems(3) kv have fresh: "k \<notin> fst ` set acc"
    and dist: "distinct (map fst ((acc @ [(k, x)]) @ kvs))" by auto
  let ?R = "if kvs = [] then newline @ ind @ CHR ''}'' # rest
            else ?sep @ js_join ?sep (ser_props ?ind kvs) @ newline @ ind @ CHR ''}'' # rest"
  have pne: "ser_props ?ind kvs = [] \<longleftrightarrow> kvs = []"
    using Cons.prems(2) by (simp add: ser_props_well_formed)
  have shape: "newline @ ?ind @ js_join ?sep (ser_props ?ind (kv # kvs)) @ newline @ ind @ CHR ''}'' # rest
      = newline @ ?ind @ (CHR 0x22 # tl (quote k) @ '': '' @ t @ ?R)"
    using t kv pne by (simp add: js_join_Cons quote_def)
  have ne: "number_end ?R" by (simp add: number_end_simps)
  have pv: "parse_value f' (t @ ?R) = Some (x, ?R)"
    by (rule round_tripD [OF rx wx t sp ne fx])
  have sk: "skip_ws (newline @ ?ind @ (CHR 0x22 # tl (quote k) @ '': '' @ t @ ?R))
      = CHR 0x22 # tl (quote k) @ '': '' @ t @ ?R"
    using skip_ws_indent [OF sp, of "[CHR 0x22]" "tl (quote k) @ '': '' @ t @ ?R"]
    by (simp add: json_ws_def)
  have key: "parse_chars [] (tl (quote k) @ '': '' @ t @ ?R) = Some (k, '': '' @ t @ ?R)"
    by (rule parse_chars_quote)
  have colon: "expect (CHR '':'') (skip_ws ('': '' @ t @ ?R)) = Some ('' '' @ t @ ?R)"
    by (simp add: skip_ws_def json_ws_def expect_def)
  have sk2: "skip_ws ('' '' @ t @ ?R) = t @ ?R"
    using skip_ws_start [OF t0 t1, of ?R] by (simp add: skip_ws_def json_ws_def)
  have quo: "\<And>r. expect (CHR 0x22) (CHR 0x22 # r) = Some r"
    by (simp add: expect_def)
  have head: "parse_members (Suc f') acc (newline @ ?ind @ (CHR 0x22 # tl (quote k) @ '': '' @ t @ ?R))
    = (case expect (CHR '','') (skip_ws ?R) of
         Some r4 \<Rightarrow> parse_members f' (acc @ [(k, x)]) r4
       | None \<Rightarrow>
           (case expect (CHR ''}'') (skip_ws ?R) of
              Some r4 \<Rightarrow> Some (JObj (acc @ [(k, x)]), r4)
            | None \<Rightarrow> None))"
    by (simp only: parse_members.simps sk quo key colon sk2 pv update_fresh [OF fresh]
          option.case prod.case)
  show ?case
  proof (cases "kvs = []")
    case True
    have "skip_ws (newline @ ind @ CHR ''}'' # rest) = CHR ''}'' # rest"
      using skip_ws_indent [OF assms(1), of "[CHR ''}'']" rest] by (simp add: json_ws_def)
    with True kv show ?thesis
      unfolding shape f head by (simp add: expect_def)
  next
    case False
    have "skip_ws ?R = ?R" using False by (simp add: skip_ws_def json_ws_def)
    moreover have "parse_members f' (acc @ [(k, x)])
       (newline @ ?ind @ js_join ?sep (ser_props ?ind kvs) @ newline @ ind @ CHR ''}'' # rest)
       = Some (JObj ((acc @ [(k, x)]) @ kvs), rest)"
      using Cons.IH [OF False _ dist fxs] Cons.prems(2) by simp
    ultimately show ?thesis
      unfolding shape f head using False kv by (simp add: expect_def)
  qed
qed

lemma round_trip_all: "round_trip v"
proof (induction v)
  case JUndefined
  show ?case by (simp add: round_trip_def)
next
  case JNull
  show ?case
    unfolding round_trip_def
  proof (intro allI impI, elim conjE)
    fix ind n rest s
    assume "ser ind JNull = Some s" "nodes JNull \<le> n"
    then obtain m where "n = Suc m" "s = ''null''" by (cases n) auto
    then show "parse_value n (s @ rest) = Some (JNull, rest)" by simp
  qed
next
  case (JBool b)
  show ?case
    unfolding round_trip_def
  proof (intro allI impI, elim conjE)
    fix ind n rest s
    assume "ser ind (JBool b) = Some s" "nodes (JBool b) \<le> n"
    then obtain m where "n = Suc m" "s = (if b then ''true'' else ''false'')" by (cases n) auto
    then show "parse_value n (s @ rest) = Some (JBool b, rest)" by simp
  qed
next
  case (JNum i)
  show ?case
    unfolding round_trip_def
  proof (intro allI impI, elim conjE)
    fix ind n rest s
    assume "ser ind (JNum i) = Some s" "nodes (JNum i) \<le> n" "number_end rest"
    then obtain m where n: "n = Suc m" and s: "s = show_int (sint i)" by (cases n) auto
    from \<open>number_end rest\<close> show "parse_value n (s @ rest) = Some (JNum i, rest)"
      unfolding n s by (rule parse_value_number)
  qed
next
  case (JStr str)
  show ?case
    unfolding round_trip_def
  proof (intro allI impI, elim conjE)
    fix ind n rest s
    assume "ser ind (JStr str) = Some s" "nodes (JStr str) \<le> n"
    then obtain m where n: "n = Suc m" and s: "s = CHR 0x22 # tl (quote str)"
      by (cases n) (auto simp: quote_def)
    show "parse_value n (s @ rest) = Some (JStr str, rest)"
      unfolding n s by (simp add: parse_chars_quote)
  qed
next
  case (JArr xs)
  show ?case
    unfolding round_trip_def
  proof (intro allI impI, elim conjE)
    fix ind n rest s
    assume w: "well_formed (JArr xs)" and s: "ser ind (JArr xs) = Some s"
      and sp: "set ind \<subseteq> {CHR 0x20}" and ne: "number_end rest" and f: "nodes (JArr xs) \<le> n"
    from f obtain m where n: "n = Suc m" and m: "sum_list (map (\<lambda>x. Suc (nodes x)) xs) \<le> m"
      by (cases n) auto
    show "parse_value n (s @ rest) = Some (JArr xs, rest)"
    proof (cases "xs = []")
      case True
      with s have "s = ''[]''" by simp
      then show ?thesis unfolding n using True by (simp add: skip_ws_def json_ws_def expect_def)
    next
      case False
      let ?ind = "ind @ ''  ''"
      let ?sep = "'','' @ newline @ ?ind"
      let ?body = "newline @ ?ind @ js_join ?sep (ser_elems ?ind xs) @ newline @ ind @ CHR '']'' # rest"
      from False s have s': "s @ rest = CHR ''['' # ?body" by auto
      have all: "\<forall>x \<in> set xs. round_trip x \<and> well_formed x"
        using JArr.IH w by (simp add: list_all_iff)
      obtain x xs' where xs: "xs = x # xs'" using False by (cases xs) auto
      from all xs have "well_formed x" by simp
      from well_formed_ser [OF this] obtain t where t: "ser ?ind x = Some t" by blast
      from ser_head [OF t] have t0: "t \<noteq> []" and t1: "\<not> json_ws (hd t)" and t2: "hd t \<noteq> CHR '']''"
        by (auto simp: value_start_not_ws value_start_def)
      have sp': "set ?ind \<subseteq> {CHR 0x20}" using sp by auto
      obtain R where "?body = newline @ ?ind @ t @ R"
        using t xs by (cases xs') (simp_all add: js_join_Cons)
      then have "skip_ws ?body = t @ R" using skip_ws_indent [OF sp' t0 t1] by simp
      then have "expect (CHR '']'') (skip_ws ?body) = None"
        using t0 t2 by (cases t) (simp_all add: expect_def)
      then show ?thesis
        unfolding s' n using parse_elements_ser [OF sp ne False all m, of "[]"] by simp
    qed
  qed
next
  case (JObj kvs)
  show ?case
    unfolding round_trip_def
  proof (intro allI impI, elim conjE)
    fix ind n rest s
    assume w: "well_formed (JObj kvs)" and s: "ser ind (JObj kvs) = Some s"
      and sp: "set ind \<subseteq> {CHR 0x20}" and ne: "number_end rest" and f: "nodes (JObj kvs) \<le> n"
    from f obtain m where n: "n = Suc m" and m: "sum_list (map (\<lambda>kv. Suc (nodes (snd kv))) kvs) \<le> m"
      by (cases n) auto
    let ?ind = "ind @ ''  ''"
    have all: "\<forall>kv \<in> set kvs. round_trip (snd kv) \<and> well_formed (snd kv)"
    proof
      fix kv assume kv: "kv \<in> set kvs"
      obtain k x where e: "kv = (k, x)" by (cases kv)
      with kv JObj.IH [of kv x] have "round_trip x" by simp
      with w kv e show "round_trip (snd kv) \<and> well_formed (snd kv)" by (auto simp: list_all_iff)
    qed
    then have props: "ser_props ?ind kvs = map (\<lambda>kv. quote (fst kv) @ '': '' @ the (ser ?ind (snd kv))) kvs"
      by (simp add: ser_props_well_formed)
    show "parse_value n (s @ rest) = Some (JObj kvs, rest)"
    proof (cases "kvs = []")
      case True
      with s have "s = ''{}''" by simp
      then show ?thesis unfolding n using True by (simp add: skip_ws_def json_ws_def expect_def)
    next
      case False
      let ?sep = "'','' @ newline @ ?ind"
      let ?body = "newline @ ?ind @ js_join ?sep (ser_props ?ind kvs) @ newline @ ind @ CHR ''}'' # rest"
      from False props have "ser_props ?ind kvs \<noteq> []" by simp
      with s have s': "s @ rest = CHR ''{'' # ?body" by auto
      obtain kv kvs' where k: "kvs = kv # kvs'" using False by (cases kvs) auto
      from props k obtain p ps where "ser_props ?ind kvs = (CHR 0x22 # p) # ps"
        by (simp add: quote_def)
      then obtain R where "?body = newline @ ?ind @ [CHR 0x22] @ R"
        by (cases ps) simp_all
      then have "skip_ws ?body = [CHR 0x22] @ R"
        using skip_ws_indent [of ?ind "[CHR 0x22]" R] sp by (simp add: json_ws_def)
      then have "expect (CHR ''}'') (skip_ws ?body) = None"
        by (simp add: expect_def)
      moreover from w have "distinct (map fst ([] @ kvs))" by simp
      ultimately show ?thesis
        unfolding s' n using parse_members_ser [OF sp ne False all _ m, of "[]"] by simp
    qed
  qed
qed

lemma text_boundD: "text_bound v \<Longrightarrow> well_formed v \<Longrightarrow> ser ind v = Some s \<Longrightarrow> nodes v \<le> length s"
  unfolding text_bound_def by blast

lemma elems_bound:
  assumes "sep \<noteq> []"
  shows "\<forall>x \<in> set xs. text_bound x \<and> well_formed x \<Longrightarrow>
    sum_list (map (\<lambda>x. Suc (nodes x)) xs) \<le> Suc (length (js_join sep (ser_elems ind xs)))"
proof (induction xs)
  case Nil
  show ?case by simp
next
  case (Cons x xs)
  from Cons.prems have wx: "well_formed x" and bx: "text_bound x" by simp_all
  from well_formed_ser [OF wx] obtain t where t: "ser ind x = Some t" by blast
  from text_boundD [OF bx wx t] have n: "nodes x \<le> length t" .
  from assms have l: "1 \<le> length sep" by (cases sep) simp_all
  from Cons have IH: "sum_list (map (\<lambda>x. Suc (nodes x)) xs) \<le> Suc (length (js_join sep (ser_elems ind xs)))"
    by simp
  show ?case
  proof (cases "xs = []")
    case True
    with t n show ?thesis by simp
  next
    case False
    then have "ser_elems ind xs \<noteq> []" by (cases xs) simp_all
    then have "length (js_join sep (ser_elems ind (x # xs)))
      = length t + length sep + length (js_join sep (ser_elems ind xs))"
      using t by (simp add: js_join_Cons)
    with n l IH show ?thesis by simp
  qed
qed

lemma props_bound:
  assumes "sep \<noteq> []"
  shows "\<forall>kv \<in> set kvs. text_bound (snd kv) \<and> well_formed (snd kv) \<Longrightarrow>
    sum_list (map (\<lambda>kv. Suc (nodes (snd kv))) kvs) \<le> Suc (length (js_join sep (ser_props ind kvs)))"
proof (induction kvs)
  case Nil
  show ?case by simp
next
  case (Cons kv kvs)
  obtain k x where kv: "kv = (k, x)" by (cases kv)
  from Cons.prems kv have wx: "well_formed x" and bx: "text_bound x" by simp_all
  from well_formed_ser [OF wx] obtain t where t: "ser ind x = Some t" by blast
  from text_boundD [OF bx wx t] have n: "nodes x \<le> length t" .
  from assms have l: "1 \<le> length sep" by (cases sep) simp_all
  from Cons have IH: "sum_list (map (\<lambda>kv. Suc (nodes (snd kv))) kvs) \<le> Suc (length (js_join sep (ser_props ind kvs)))"
    by simp
  show ?case
  proof (cases "kvs = []")
    case True
    with t n kv show ?thesis by simp
  next
    case False
    with Cons.prems have "ser_props ind kvs \<noteq> []" by (simp add: ser_props_well_formed)
    then have "length (js_join sep (ser_props ind (kv # kvs)))
      = length (quote k @ '': '' @ t) + length sep + length (js_join sep (ser_props ind kvs))"
      using t kv by (simp add: js_join_Cons)
    with n l IH kv show ?thesis by simp
  qed
qed

lemma text_bound_all: "text_bound v"
proof (induction v)
  case (JArr xs)
  show ?case
    unfolding text_bound_def
  proof (intro allI impI, elim conjE)
    fix ind s
    assume w: "well_formed (JArr xs)" and s: "ser ind (JArr xs) = Some s"
    have all: "\<forall>x \<in> set xs. text_bound x \<and> well_formed x"
      using JArr.IH w by (simp add: list_all_iff)
    let ?ind = "ind @ ''  ''"
    let ?sep = "'','' @ newline @ ?ind"
    have "sum_list (map (\<lambda>x. Suc (nodes x)) xs) \<le> Suc (length (js_join ?sep (ser_elems ?ind xs)))"
      by (rule elems_bound [OF _ all]) simp
    with s show "nodes (JArr xs) \<le> length s" by (auto split: if_splits)
  qed
next
  case (JObj kvs)
  show ?case
    unfolding text_bound_def
  proof (intro allI impI, elim conjE)
    fix ind s
    assume w: "well_formed (JObj kvs)" and s: "ser ind (JObj kvs) = Some s"
    have all: "\<forall>kv \<in> set kvs. text_bound (snd kv) \<and> well_formed (snd kv)"
    proof
      fix kv assume kv: "kv \<in> set kvs"
      obtain k x where e: "kv = (k, x)" by (cases kv)
      with kv JObj.IH [of kv x] have "text_bound x" by simp
      with w kv e show "text_bound (snd kv) \<and> well_formed (snd kv)" by (auto simp: list_all_iff)
    qed
    let ?ind = "ind @ ''  ''"
    let ?sep = "'','' @ newline @ ?ind"
    have b: "sum_list (map (\<lambda>kv. Suc (nodes (snd kv))) kvs) \<le> Suc (length (js_join ?sep (ser_props ?ind kvs)))"
      by (rule props_bound [OF _ all]) simp
    have "ser_props ?ind kvs = [] \<longleftrightarrow> kvs = []"
      using all by (simp add: ser_props_well_formed)
    with s b show "nodes (JObj kvs) \<le> length s" by (auto split: if_splits)
  qed
qed (simp_all add: text_bound_def quote_def show_int_head Suc_le_eq)

lemma JSON_parse_stringify:
  assumes "well_formed v"
  shows "JSON_parse (JSON_stringify v) = Some v"
proof -
  from well_formed_ser [OF assms] obtain s where s: "ser [] v = Some s" by blast
  from ser_head [OF s] have "s \<noteq> []" "\<not> json_ws (hd s)" by (simp_all add: value_start_not_ws)
  then have sk: "skip_ws s = s" using skip_ws_start [of s "[]"] by simp
  have "nodes v \<le> length s" by (rule text_boundD [OF text_bound_all assms s])
  from round_tripD [OF round_trip_all assms s _ number_end_simps(3) this]
  have "parse_value (length s) s = Some (v, [])" by simp
  with s sk show ?thesis by (simp add: JSON_parse_def JSON_stringify_def skip_ws_def)
qed


section \<open>Reading back what was appended\<close>

text \<open>
  Claim C2, as amended. Take a run of appends on streams that were empty, no compact
  line with a line break in it and no JSON record with the delimiter in it, and a
  positive limit. The dashboard (\<^verbatim>\<open>GET /logs\<close>) returns the last \<open>limit\<close> appended
  entries of the main file, and of the file of a type, newest first: the pieces
  between line breaks, or between delimiters, that are not blank, the last \<open>limit\<close> of
  them, reversed, and exactly \<open>limit\<close> of them when more were appended. An entry of a
  typed stream is what \<open>parse\<close> returns for the record, or the text of the record.
  \<^verbatim>\<open>GET /api/logs\<close> returns the last \<open>limit\<close> lines in the order of the file, oldest
  first: it does not reverse, and it splits every file by line, whatever the
  selector and the directory. Of the main file these are the appended lines; of the
  file of a type they are the lines of the JSON records, each record followed by the
  line of the delimiter.
\<close>



theorem reads_after_appends:
  assumes "log_all fs0 cs = Some fs" and "\<forall>c \<in> set cs. type_of c \<in> set allowedTypes"
    and "content fs0 logFile = []" and "content fs0 (typeFile t) = []"
    and "t \<in> set allowedTypes" and "filter (\<lambda>c. type_of c = t) cs \<noteq> []"
    and "\<forall>c \<in> set cs. CHR 0x0A \<notin> set (line_of c)"
    and "\<forall>c \<in> set cs. \<not> occurs delimiter (JSON_stringify (entry_of c))"
    and "0 < n"
  shows "view_logs parse fs None (Some (Num n))
           = map (\<lambda>c. JStr (line_of c)) (rev (drop (length cs - nat n) cs))
       \<and> view_logs parse fs (Some t) (Some (Num n))
           = map (\<lambda>c. case parse (JSON_stringify (entry_of c)) of
                         Some v \<Rightarrow> v
                       | None \<Rightarrow> JStr (JSON_stringify (entry_of c)))
               (rev (drop (length (filter (\<lambda>c. type_of c = t) cs) - nat n)
                      (filter (\<lambda>c. type_of c = t) cs)))
       \<and> logs (get_api_logs fs None (Some (Num n))) = map line_of (drop (length cs - nat n) cs)
       \<and> (nat n < length cs \<longrightarrow>
            length (view_logs parse fs None (Some (Num n))) = nat n
            \<and> count (get_api_logs fs None (Some (Num n))) = nat n)
       \<and> (nat n < length (filter (\<lambda>c. type_of c = t) cs) \<longrightarrow>
            length (view_logs parse fs (Some t) (Some (Num n))) = nat n)
       \<and> logs (get_api_logs fs (Some t) (Some (Num n)))
           = slice_last (Num n)
               (concat (map (\<lambda>c. filter (\<lambda>line. \<not> blank line)
                                   (js_split (JSON_stringify (entry_of c)) newline) @ [delimiter])
                  (filter (\<lambda>c. type_of c = t) cs)))
       \<and> (\<forall>dir type limit data. readFile dir (selected_file type) = Inr data \<longrightarrow>
             logs (get_api_logs dir type limit)
               = slice_last (case limit of None \<Rightarrow> Num 100 | Some l \<Rightarrow> l)
                   (filter (\<lambda>line. \<not> blank line) (js_split data newline))
             \<and> count (get_api_logs dir type limit) = length (logs (get_api_logs dir type limit)))
       \<and> (\<forall>c \<in> set cs.
             logLine (at c) (type_of c) (title_of c) (or_default (description_of c) (JStr []))
               = Inr (line_of c))"
proof -
  from assms(6) have ne: "cs \<noteq> []" by auto
  have f: "\<forall>c \<in> set cs.
             logLine (at c) (type_of c) (title_of c) (or_default (description_of c) (JStr []))
               = Inr (line_of c)"
    using log_all_lines [OF assms(1)] by blast
  have d: "logs (get_api_logs fs (Some t) (Some (Num n)))
           = slice_last (Num n)
               (concat (map (\<lambda>c. filter (\<lambda>line. \<not> blank line)
                                   (js_split (JSON_stringify (entry_of c)) newline) @ [delimiter])
                  (filter (\<lambda>c. type_of c = t) cs)))"
  proof -
    let ?tcs = "filter (\<lambda>c. type_of c = t) cs"
    have "readFile fs (typeFile t) = Inr (concat (map (\<lambda>c. detailedLog (entry_of c)) ?tcs))"
      using log_all_typeFile [OF assms(1,2) typeFile_not_logFile [OF assms(5)]] assms(4,6)
      by (simp add: readFile_def)
    moreover have "selected_file (Some t) = typeFile t"
      using assms(5) by (auto simp: selected_file_def allowedTypes_def)
    moreover have "concat (map (\<lambda>c. detailedLog (entry_of c)) ?tcs)
        = concat (map (\<lambda>r. r @ newline @ delimiter @ newline)
            (map (\<lambda>c. JSON_stringify (entry_of c)) ?tcs))"
      by (simp add: detailedLog_def comp_def)
    ultimately show ?thesis
      by (simp only: api_logs_of_file lines_of_records logs_response.simps)
         (simp add: comp_def)
  qed
  have e: "\<forall>dir type limit data. readFile dir (selected_file type) = Inr data \<longrightarrow>
             logs (get_api_logs dir type limit)
               = slice_last (case limit of None \<Rightarrow> Num 100 | Some l \<Rightarrow> l)
                   (filter (\<lambda>line. \<not> blank line) (js_split data newline))
             \<and> count (get_api_logs dir type limit) = length (logs (get_api_logs dir type limit))"
    by (simp add: api_logs_of_file)
  have a: "view_logs parse fs None (Some (Num n))
           = map (\<lambda>c. JStr (line_of c)) (rev (drop (length cs - nat n) cs))"
    using view_all_after_run(1) [OF assms(1,2,3) ne assms(7), of parse "Num n"] assms(9)
    by (simp add: slice_last_pos drop_map rev_map)
  have b: "view_logs parse fs (Some t) (Some (Num n))
           = map (\<lambda>c. case parse (JSON_stringify (entry_of c)) of
                         Some v \<Rightarrow> v
                       | None \<Rightarrow> JStr (JSON_stringify (entry_of c)))
               (rev (drop (length (filter (\<lambda>c. type_of c = t) cs) - nat n)
                      (filter (\<lambda>c. type_of c = t) cs)))"
    using view_type_after_run [OF assms(1,2,4,5,6,8), of parse "Num n"] assms(9)
    by (simp add: slice_last_pos drop_map rev_map)
  have c: "get_api_logs fs None (Some (Num n)) =
           \<lparr>success = True, logs = map line_of (drop (length cs - nat n) cs),
            count = length (drop (length cs - nat n) cs),
            file_name = Some logFile, message = None\<rparr>"
    using view_all_after_run(2) [OF assms(1,2,3) ne assms(7), of "Num n"] assms(9)
    by (simp add: slice_last_pos drop_map)
  from d e f show ?thesis unfolding a b c by simp
qed

theorem reads_after_appends_witness:
  "view_logs JSON_parse
      (the (log_all Map.empty
          [call ''T1'' ''log'' ''one'', call ''T2'' ''error'' ''two'', call ''T3'' ''log'' ''three'']))
      None (Some (Num 2))
   = [JStr ''[T3] [LOG] three'', JStr ''[T2] [ERROR] two'']
   \<and> view_logs JSON_parse
      (the (log_all Map.empty
          [call ''T1'' ''log'' ''one'', call ''T2'' ''error'' ''two'', call ''T3'' ''log'' ''three'']))
      (Some ''log'') (Some (Num 1))
   = [entry_of (call ''T3'' ''log'' ''three'')]"
proof -
  let ?cs = "[call ''T1'' ''log'' ''one'', call ''T2'' ''error'' ''two'', call ''T3'' ''log'' ''three'']"
  have "log_all Map.empty ?cs \<noteq> None" by code_simp
  then have 1: "log_all Map.empty ?cs = Some (the (log_all Map.empty ?cs))" by simp
  have 2: "\<forall>c \<in> set ?cs. type_of c \<in> set allowedTypes" by code_simp
  have 3: "content Map.empty logFile = []" "content Map.empty (typeFile ''log'') = []"
    by (simp_all add: content_def readFile_def)
  have 4: "''log'' \<in> set allowedTypes" "filter (\<lambda>c. type_of c = ''log'') ?cs \<noteq> []"
    by code_simp+
  have 5: "\<forall>c \<in> set ?cs. CHR 0x0A \<notin> set (line_of c)" by code_simp
  have 6: "\<forall>c \<in> set ?cs. \<not> occurs delimiter (JSON_stringify (entry_of c))" by code_simp
  have 7: "map (\<lambda>c. JStr (line_of c)) (rev (drop (length ?cs - nat 2) ?cs))
      = [JStr ''[T3] [LOG] three'', JStr ''[T2] [ERROR] two'']"
    by code_simp
  have 8: "map (\<lambda>c. case JSON_parse (JSON_stringify (entry_of c)) of
                         Some v \<Rightarrow> v
                       | None \<Rightarrow> JStr (JSON_stringify (entry_of c)))
               (rev (drop (length (filter (\<lambda>c. type_of c = ''log'') ?cs) - nat 1)
                      (filter (\<lambda>c. type_of c = ''log'') ?cs)))
      = [entry_of (call ''T3'' ''log'' ''three'')]"
    by code_simp
  from reads_after_appends [OF 1 2 3 4 5 6, of 2 JSON_parse]
    reads_after_appends [OF 1 2 3 4 5 6, of 1 JSON_parse] 7 8
  show ?thesis by simp
qed

text \<open>
  Claim C2 as stated fails for \<^verbatim>\<open>GET /api/logs\<close>: after three appends, a read of the
  main file with limit 2 returns the second entry before the third, and a read of a
  typed file with limit 1 returns the line of the delimiter, which is no appended
  entry.
\<close>



theorem storage_order_counterexample:
  "logs (get_api_logs
      (the (log_all Map.empty
          [call ''T1'' ''log'' ''one'', call ''T2'' ''error'' ''two'', call ''T3'' ''log'' ''three'']))
      None (Some (Num 2)))
   = [''[T2] [ERROR] two'', ''[T3] [LOG] three'']
   \<and> logs (get_api_logs
      (the (log_all Map.empty
          [call ''T1'' ''log'' ''one'', call ''T2'' ''error'' ''two'', call ''T3'' ''log'' ''three'']))
      (Some ''log'') (Some (Num 1)))
   = [delimiter]"
  by code_simp


text \<open>
  Claim C1, as amended. A successful \<open>Logger.log\<close> for one of the three types appends
  the compact line to the main file and the JSON text of the whole entry, followed
  by the delimiter, to the file of the type, and changes no other file. A call
  whose title, or whose description when it is not falsy, cannot be converted to a
  string is rejected with a \<^verbatim>\<open>TypeError\<close> before anything is written. After a run
  of such appends on streams that were empty, no compact line with a line break in
  it and no JSON record with the delimiter in it, and with a limit that is not below
  the number of appends: the compact line of every appended event is among the
  entries both reads of the main file return, and the dashboard's read of the file
  of its type holds the value \<open>parse\<close> returns for its record, which is the event
  itself, all five fields, whenever \<open>parse\<close> inverts \<^verbatim>\<open>JSON.stringify\<close> on it. The
  reader of this theory does so for every well-formed event: with it in the place
  of \<^verbatim>\<open>JSON.parse\<close>, the read of the file of the type holds the event itself.
\<close>

theorem dual_write:
  assumes "log_all fs0 cs = Some fs" and "\<forall>c \<in> set cs. type_of c \<in> set allowedTypes"
    and "content fs0 logFile = []" and "\<forall>t \<in> set allowedTypes. content fs0 (typeFile t) = []"
    and "\<forall>c \<in> set cs. CHR 0x0A \<notin> set (line_of c)"
    and "\<forall>c \<in> set cs. \<not> occurs delimiter (JSON_stringify (entry_of c))"
    and "c \<in> set cs" and "int (length cs) \<le> N"
  shows "(Logger_log fs1 ts ty title d m = Inr (True, fs2) \<and> ty \<in> set allowedTypes \<longrightarrow>
            (\<exists>line. logLine ts ty title (or_default d (JStr [])) = Inr line
               \<and> readFile fs2 logFile = Inr (content fs1 logFile @ line @ newline))
          \<and> readFile fs2 (typeFile ty)
              = Inr (content fs1 (typeFile ty)
                     @ JSON_stringify (logEntry ts ty title (or_default d (JStr []))
                         (or_default m (JObj [])))
                     @ newline @ delimiter @ newline)
          \<and> (\<forall>f. f \<noteq> logFile \<and> f \<noteq> typeFile ty \<longrightarrow> fs2 f = fs1 f))
       \<and> (throws title
            \<or> js_truthy (or_default d (JStr [])) \<and> throws (or_default d (JStr [])) \<longrightarrow>
            Logger_log fs1 ts ty title d m = Inl TypeError)
       \<and> logLine (at c) (type_of c) (title_of c) (or_default (description_of c) (JStr []))
           = Inr (line_of c)
       \<and> readFile fs logFile = Inr (concat (map (\<lambda>c. line_of c @ newline) cs))
       \<and> readFile fs (typeFile (type_of c))
           = Inr (concat (map (\<lambda>c. detailedLog (entry_of c))
                    (filter (\<lambda>c'. type_of c' = type_of c) cs)))
       \<and> (\<forall>f. f \<noteq> logFile \<and> f \<notin> typeFile ` set allowedTypes \<longrightarrow> fs f = fs0 f)
       \<and> JStr (line_of c) \<in> set (view_logs parse fs None (Some (Num N)))
       \<and> line_of c \<in> set (logs (get_api_logs fs None (Some (Num N))))
       \<and> (\<forall>v. parse (JSON_stringify (entry_of c)) = Some v \<longrightarrow>
             v \<in> set (view_logs parse fs (Some (type_of c)) (Some (Num N))))
       \<and> (well_formed (entry_of c) \<longrightarrow>
             entry_of c \<in> set (view_logs JSON_parse fs (Some (type_of c)) (Some (Num N))))"
proof -
  let ?t = "type_of c"
  let ?tcs = "filter (\<lambda>c'. type_of c' = ?t) cs"
  let ?g = "\<lambda>c. case parse (JSON_stringify (entry_of c)) of
                  Some v \<Rightarrow> v | None \<Rightarrow> JStr (JSON_stringify (entry_of c))"
  from assms(7) have ne: "cs \<noteq> []" and tne: "?tcs \<noteq> []" and ct: "c \<in> set ?tcs"
    by (auto simp: filter_empty_conv)
  from ne assms(8) have N: "0 < N" by (cases cs) auto
  from assms(2,7) have t: "?t \<in> set allowedTypes" by simp
  with assms(4) have fresh: "content fs0 (typeFile ?t) = []" by simp
  have step: "Logger_log fs1 ts ty title d m = Inr (True, fs2) \<and> ty \<in> set allowedTypes \<longrightarrow>
            (\<exists>line. logLine ts ty title (or_default d (JStr [])) = Inr line
               \<and> readFile fs2 logFile = Inr (content fs1 logFile @ line @ newline))
          \<and> readFile fs2 (typeFile ty)
              = Inr (content fs1 (typeFile ty)
                     @ JSON_stringify (logEntry ts ty title (or_default d (JStr []))
                         (or_default m (JObj [])))
                     @ newline @ delimiter @ newline)
          \<and> (\<forall>f. f \<noteq> logFile \<and> f \<noteq> typeFile ty \<longrightarrow> fs2 f = fs1 f)"
  proof (intro impI, elim conjE)
    assume l: "Logger_log fs1 ts ty title d m = Inr (True, fs2)" and a: "ty \<in> set allowedTypes"
    from Logger_log_True [OF l typeFile_not_logFile [OF a]] typeFile_not_logFile [OF a]
    show "(\<exists>line. logLine ts ty title (or_default d (JStr [])) = Inr line
               \<and> readFile fs2 logFile = Inr (content fs1 logFile @ line @ newline))
          \<and> readFile fs2 (typeFile ty)
              = Inr (content fs1 (typeFile ty)
                     @ JSON_stringify (logEntry ts ty title (or_default d (JStr []))
                         (or_default m (JObj [])))
                     @ newline @ delimiter @ newline)
          \<and> (\<forall>f. f \<noteq> logFile \<and> f \<noteq> typeFile ty \<longrightarrow> fs2 f = fs1 f)"
      by (auto simp: readFile_def detailedLog_def)
  qed
  have rejected: "throws title
            \<or> js_truthy (or_default d (JStr [])) \<and> throws (or_default d (JStr [])) \<longrightarrow>
            Logger_log fs1 ts ty title d m = Inl TypeError"
    by (simp add: Logger_log_rejected logLine_rejected)
  have agg: "readFile fs logFile = Inr (concat (map (\<lambda>c. line_of c @ newline) cs))"
    using log_all_logFile [OF assms(1,2)] ne assms(3) by (simp add: readFile_def)
  have tyf: "readFile fs (typeFile ?t) = Inr (concat (map (\<lambda>c. detailedLog (entry_of c)) ?tcs))"
    using log_all_typeFile [OF assms(1,2) typeFile_not_logFile [OF t]] tne fresh
    by (simp add: readFile_def)
  have other: "\<forall>f. f \<noteq> logFile \<and> f \<notin> typeFile ` set allowedTypes \<longrightarrow> fs f = fs0 f"
    using log_all_other [OF assms(1,2)] by blast
  have va: "view_logs parse fs None (Some (Num N)) = map JStr (rev (map line_of cs))"
    using view_all_after_run(1) [OF assms(1,2,3) ne assms(5), of parse "Num N"] N assms(8)
    by (simp add: slice_last_all)
  have ga: "logs (get_api_logs fs None (Some (Num N))) = map line_of cs"
    using view_all_after_run(2) [OF assms(1,2,3) ne assms(5), of "Num N"] N assms(8)
    by (simp add: slice_last_all)
  have "int (length (map ?g ?tcs)) \<le> N"
  proof -
    have "int (length (map ?g ?tcs)) \<le> int (length cs)" by simp
    with assms(8) show ?thesis by linarith
  qed
  then have vt: "view_logs parse fs (Some ?t) (Some (Num N)) = rev (map ?g ?tcs)"
    using view_type_after_run [OF assms(1,2) fresh t tne assms(6), of parse "Num N"] N
    by (simp only: slice_last_all)
  have m1: "JStr (line_of c) \<in> set (view_logs parse fs None (Some (Num N)))"
    unfolding va using assms(7) by simp
  have m2: "line_of c \<in> set (logs (get_api_logs fs None (Some (Num N))))"
    unfolding ga using assms(7) by simp
  have m3: "\<forall>v. parse (JSON_stringify (entry_of c)) = Some v \<longrightarrow>
             v \<in> set (view_logs parse fs (Some ?t) (Some (Num N)))"
  proof (intro allI impI)
    fix v assume "parse (JSON_stringify (entry_of c)) = Some v"
    then have "?g c = v" by simp
    with ct have "v \<in> ?g ` set ?tcs" by blast
    then show "v \<in> set (view_logs parse fs (Some ?t) (Some (Num N)))"
      unfolding vt by simp
  qed
  let ?h = "\<lambda>c. case JSON_parse (JSON_stringify (entry_of c)) of
                  Some v \<Rightarrow> v | None \<Rightarrow> JStr (JSON_stringify (entry_of c))"
  have "int (length (map ?h ?tcs)) \<le> N"
  proof -
    have "int (length (map ?h ?tcs)) \<le> int (length cs)" by simp
    with assms(8) show ?thesis by linarith
  qed
  then have vj: "view_logs JSON_parse fs (Some ?t) (Some (Num N)) = rev (map ?h ?tcs)"
    using view_type_after_run [OF assms(1,2) fresh t tne assms(6), of JSON_parse "Num N"] N
    by (simp only: slice_last_all)
  have m4: "well_formed (entry_of c) \<longrightarrow>
             entry_of c \<in> set (view_logs JSON_parse fs (Some ?t) (Some (Num N)))"
  proof
    assume "well_formed (entry_of c)"
    then have "?h c = entry_of c" by (simp add: JSON_parse_stringify)
    with ct have "entry_of c \<in> ?h ` set ?tcs" by (metis (no_types, lifting) imageI)
    then show "entry_of c \<in> set (view_logs JSON_parse fs (Some ?t) (Some (Num N)))"
      unfolding vj by simp
  qed
  note line = log_all_lines [OF assms(1,7)]
  from step rejected line agg tyf other m1 m2 m3 m4 show ?thesis by blast
qed



theorem dual_write_witness:
  "JStr ''[T1] [ERROR] Crash - npe''
     \<in> set (view_logs JSON_parse
          (the (log_all Map.empty
             [\<lparr>at = ''T1'', type_of = ''error'', title_of = JStr ''Crash'',
               description_of = JStr ''npe'', metadata_of = JObj [(''screen'', JStr ''Home'')]\<rparr>]))
          None (Some (Num 10)))
   \<and> JObj [(''timestamp'', JStr ''T1''), (''type'', JStr ''error''), (''title'', JStr ''Crash''),
           (''description'', JStr ''npe''), (''metadata'', JObj [(''screen'', JStr ''Home'')])]
     \<in> set (view_logs JSON_parse
          (the (log_all Map.empty
             [\<lparr>at = ''T1'', type_of = ''error'', title_of = JStr ''Crash'',
               description_of = JStr ''npe'', metadata_of = JObj [(''screen'', JStr ''Home'')]\<rparr>]))
          (Some ''error'') (Some (Num 10)))"
proof -
  let ?c = "\<lparr>at = ''T1'', type_of = ''error'', title_of = JStr ''Crash'',
               description_of = JStr ''npe'', metadata_of = JObj [(''screen'', JStr ''Home'')]\<rparr>"
  have "log_all Map.empty [?c] \<noteq> None" by code_simp
  then have 1: "log_all Map.empty [?c] = Some (the (log_all Map.empty [?c]))" by simp
  have 2: "\<forall>c \<in> set [?c]. type_of c \<in> set allowedTypes" by code_simp
  have 3: "content Map.empty logFile = []" "\<forall>t \<in> set allowedTypes. content Map.empty (typeFile t) = []"
    by (simp_all add: content_def readFile_def)
  have 4: "\<forall>c \<in> set [?c]. CHR 0x0A \<notin> set (line_of c)" by code_simp
  have 5: "\<forall>c \<in> set [?c]. \<not> occurs delimiter (JSON_stringify (entry_of c))" by code_simp
  have 6: "?c \<in> set [?c]" "int (length [?c]) \<le> 10" by simp_all
  have 7: "JSON_parse (JSON_stringify (entry_of ?c)) = Some (entry_of ?c)" by code_simp
  have 8: "line_of ?c = ''[T1] [ERROR] Crash - npe''" by code_simp
  have 9: "entry_of ?c = JObj [(''timestamp'', JStr ''T1''), (''type'', JStr ''error''),
      (''title'', JStr ''Crash''), (''description'', JStr ''npe''),
      (''metadata'', JObj [(''screen'', JStr ''Home'')])]"
    by (simp add: entry_of_def logEntry_def or_default_def)
  from dual_write [OF 1 2 3 4 5 6, where parse = JSON_parse] 7
  have "JStr (line_of ?c) \<in> set (view_logs JSON_parse (the (log_all Map.empty [?c])) None (Some (Num 10)))"
    and "entry_of ?c \<in> set (view_logs JSON_parse (the (log_all Map.empty [?c]))
            (Some (type_of ?c)) (Some (Num 10)))"
    by blast+
  then show ?thesis unfolding 8 9 by simp
qed


text \<open>
  Claim C1 as stated fails for an event whose text holds the delimiter: a
  submission with fifty equals signs as its title is accepted and written, and the
  read of its stream returns two pieces of raw text, none of them the event.
\<close>

theorem delimiter_in_title_counterexample:
  "fst (post_log Map.empty ''T1'' ''T2''
          \<lparr>body = [(''type'', JStr ''error''), (''title'', JStr delimiter)],
           user_agent = JStr ''okhttp'', ip = JStr ''10.0.0.7''\<rparr>) = Created ''T2''
   \<and> logEntry ''T1'' ''error'' (JStr delimiter) (JStr [])
        (JObj [(''userAgent'', JStr ''okhttp''), (''ip'', JStr ''10.0.0.7''),
               (''source'', JStr ''react-native-app'')])
     \<notin> set (view_logs JSON_parse
          (snd (post_log Map.empty ''T1'' ''T2''
             \<lparr>body = [(''type'', JStr ''error''), (''title'', JStr delimiter)],
              user_agent = JStr ''okhttp'', ip = JStr ''10.0.0.7''\<rparr>))
          (Some ''error'') (Some (Num 100)))
   \<and> length (view_logs JSON_parse
          (snd (post_log Map.empty ''T1'' ''T2''
             \<lparr>body = [(''type'', JStr ''error''), (''title'', JStr delimiter)],
              user_agent = JStr ''okhttp'', ip = JStr ''10.0.0.7''\<rparr>))
          (Some ''error'') (Some (Num 100))) = 2
   \<and> readFile (snd (post_log Map.empty ''T1'' ''T2''
             \<lparr>body = [(''type'', JStr ''error''), (''title'', JStr delimiter)],
              user_agent = JStr ''okhttp'', ip = JStr ''10.0.0.7''\<rparr>)) ''error_logs.txt''
     = Inr (detailedLog (logEntry ''T1'' ''error'' (JStr delimiter) (JStr [])
        (JObj [(''userAgent'', JStr ''okhttp''), (''ip'', JStr ''10.0.0.7''),
               (''source'', JStr ''react-native-app'')])))"
  by code_simp

end
